theory Spec2Isabelle
  imports Complex_Main
begin

section \<open>Python strings and slices\<close>

text \<open>
  A Python \<open>str\<close> is modelled as a \<open>string\<close>; each \<open>char\<close> stands for one code
  point below 256, so \<open>length\<close> is Python's \<open>len\<close>. The whitespace characters are
  those for which \<open>str.isspace\<close> holds in that range; \<open>str.strip\<close> and the regular
  expression class \<open>\s\<close> both use them.
\<close>

definition is_space :: "char \<Rightarrow> bool" where
  "is_space c = (of_char c \<in> {9, 10, 11, 12, 13, 28, 29, 30, 31, 32, 133, 160 :: nat})"

definition strip :: "string \<Rightarrow> string" where
  "strip s = rev (dropWhile is_space (rev (dropWhile is_space s)))"

text \<open>
  The slices \<open>s[:k]\<close> and \<open>s[k:]\<close>: a negative bound counts from the end, and a bound
  outside the string is clamped.
\<close>

definition slice_to :: "'a list \<Rightarrow> int \<Rightarrow> 'a list" where
  "slice_to s k = (if k < 0 then take (nat (int (length s) + k)) s else take (nat k) s)"

definition slice_from :: "'a list \<Rightarrow> int \<Rightarrow> 'a list" where
  "slice_from s k = (if k < 0 then drop (nat (int (length s) + k)) s else drop (nat k) s)"

text \<open>\<open>s.rfind(c)\<close> for a one-character \<open>c\<close>: the highest index of \<open>c\<close> in \<open>s\<close>, or \<open>-1\<close>.\<close>

primrec rfind :: "string \<Rightarrow> char \<Rightarrow> int" where
  "rfind [] c = - 1"
| "rfind (x # xs) c =
     (let r = rfind xs c in if 0 \<le> r then r + 1 else if x = c then 0 else - 1)"

section \<open>split_text\<close>

text \<open>
  Lines 33 to 35 of the loop body: the index of the last period in the window
  \<open>text[:max_chars]\<close>, or \<open>max_chars\<close> when the window has none.
\<close>

definition split_index :: "string \<Rightarrow> int \<Rightarrow> int" where
  "split_index text max_chars =
     (let found = rfind (slice_to text max_chars) (CHR ''.'')
      in if found = - 1 then max_chars else found)"

text \<open>
  The \<open>while\<close> loop. Python integers are unbounded and \<open>max_chars\<close> may be negative,
  in which case the loop never exits; not returning is the value \<open>None\<close>.
\<close>

partial_function (option) split_loop ::
  "string list \<Rightarrow> string \<Rightarrow> int \<Rightarrow> (string list \<times> string) option" where
  "split_loop chunks text max_chars =
     (if int (length text) > max_chars then
        let i = split_index text max_chars;
            chunk = strip (slice_to text (i + 1));
            chunks' = (if length chunk > 20 then chunks @ [chunk] else chunks)
        in split_loop chunks' (slice_from text (i + 1)) max_chars
      else Some (chunks, text))"

declare split_loop.simps [code]

text \<open>
  split_text: the loop from the empty list of chunks, then the remainder, kept when its
  stripped length is over 20 (lines 40 and 41).
\<close>

definition split_text :: "string \<Rightarrow> int \<Rightarrow> string list option" where
  "split_text text max_chars =
     (case split_loop [] text max_chars of
        None \<Rightarrow> None
      | Some (chunks, rest) \<Rightarrow>
          Some (if length (strip rest) > 20 then chunks @ [strip rest] else chunks))"

section \<open>extract_text_from_pdf\<close>

text \<open>
  The PDF reader is a collaborator: its result is the list of the pages, each with the
  text \<open>page.extract_text()\<close> gives, or none. The pattern of the first substitution
  has only ASCII letters and spaces, so matching it without regard to case compares the
  lower-cased characters, scanning from the left; a match is deleted and the scan goes
  on behind it.
\<close>

text \<open>Lower case of the ASCII letters; every other character is left as it is.\<close>

definition lower :: "char \<Rightarrow> char" where
  "lower c =
     (case map_of (zip ''ABCDEFGHIJKLMNOPQRSTUVWXYZ'' ''abcdefghijklmnopqrstuvwxyz'') c of
        None \<Rightarrow> c
      | Some l \<Rightarrow> l)"

definition watermark :: string where
  "watermark = ''Scan to Download''"

text \<open>The pattern matches at the start of \<open>s\<close>, character by character, ignoring case.\<close>

fun ci_prefix :: "string \<Rightarrow> string \<Rightarrow> bool" where
  "ci_prefix [] s = True"
| "ci_prefix (p # ps) [] = False"
| "ci_prefix (p # ps) (c # cs) = (if lower c = lower p then ci_prefix ps cs else False)"

definition matches_watermark :: "string \<Rightarrow> bool" where
  "matches_watermark s = ci_prefix watermark s"

text \<open>
  Line 24, \<open>re.sub(r"Scan to Download", "", text, flags=re.IGNORECASE)\<close>: one pass from
  the left; where the pattern matches, the match is left out and the scan goes on behind
  it, otherwise the character is kept.
\<close>

function sub_watermark :: "string \<Rightarrow> string" where
  "sub_watermark [] = []"
| "sub_watermark (c # cs) =
     (if matches_watermark (c # cs) then sub_watermark (drop (length watermark) (c # cs))
      else c # sub_watermark cs)"
  by pat_completeness auto
termination
  by (relation "measure length") (auto simp: watermark_def)

text \<open>Line 25, \<open>re.sub(r"\s+", " ", text)\<close>: each run of whitespace becomes one space.\<close>

function collapse_spaces :: "string \<Rightarrow> string" where
  "collapse_spaces [] = []"
| "collapse_spaces (c # cs) =
     (if is_space c then CHR '' '' # collapse_spaces (dropWhile is_space cs)
      else c # collapse_spaces cs)"
  by pat_completeness auto
termination
  by (relation "measure length") (auto simp: length_dropWhile_le less_Suc_eq_le)

text \<open>
  Lines 16 to 22: the texts of the pages, each followed by a newline; a page without
  text, or with the empty text, adds nothing.
\<close>

fun page_texts :: "string option list \<Rightarrow> string" where
  "page_texts [] = []"
| "page_texts (page # pages) =
     (case page of
        None \<Rightarrow> page_texts pages
      | Some page_text \<Rightarrow>
          if page_text \<noteq> [] then page_text @ [CHR 0x0A] @ page_texts pages
          else page_texts pages)"

definition extract_text_from_pdf :: "string option list \<Rightarrow> string" where
  "extract_text_from_pdf pages = strip (collapse_spaces (sub_watermark (page_texts pages)))"

text \<open>The phrase occurs in \<open>s\<close>, in any case, at some position.\<close>

definition has_watermark :: "string \<Rightarrow> bool" where
  "has_watermark s = list_ex matches_watermark (map (\<lambda>i. drop i s) [0..<length s])"


section \<open>The collaborators: files, screen, models\<close>

text \<open>
  A waveform is a list with one entry for each millisecond of audio, so that \<open>length\<close>
  is the duration that \<open>len(audio)\<close> reports, \<open>@\<close> is \<open>+=\<close> on audio segments and
  slicing is by time. A WAV file holds a waveform. The world is what the operations
  change: the files, what was shown on the screen, and the names of the models that
  \<open>TTS(...)\<close> was asked to load. A loaded model either renders or raises; when it
  raises it writes no file.
\<close>

text \<open>
  The exceptions: those of Python itself that the code can meet, and \<open>Raised msg\<close> for
  an exception of a library, with the message \<open>str(e)\<close> that the warnings show.
\<close>

datatype error = IndexError | ValueError | FileNotFoundError string | Raised string

fun str_error :: "error \<Rightarrow> string" where
  "str_error IndexError = ''list index out of range''"
| "str_error ValueError = ''range() arg 3 must not be zero''"
| "str_error (FileNotFoundError path) =
     ''[Errno 2] No such file or directory: '' @ [CHR 0x27] @ path @ [CHR 0x27]"
| "str_error (Raised msg) = msg"

text \<open>The decimal digits of a number, as an f-string writes \<open>{i}\<close>.\<close>

fun str_nat :: "nat \<Rightarrow> string" where
  "str_nat n =
     (if n < 10 then [''0123456789'' ! n]
      else str_nat (n div 10) @ [''0123456789'' ! (n mod 10)])"

declare str_nat.simps [simp del]

type_synonym waveform = "int list"

datatype event = Info string | Warning string | Progress rat

record world =
  files :: "string \<rightharpoonup> waveform"
  screen :: "event list"
  loaded :: "string list"

record tts =
  speakers :: "string list"
  synthesize :: "string \<Rightarrow> string \<Rightarrow> error + waveform"
  convert :: "waveform \<Rightarrow> waveform \<Rightarrow> error + waveform"

text \<open>\<open>st.info\<close>, \<open>st.warning\<close> and the progress bar add a line to the screen.\<close>

definition st_info :: "string \<Rightarrow> world \<Rightarrow> world" where
  "st_info msg w = w\<lparr>screen := screen w @ [Info msg]\<rparr>"

definition st_warning :: "string \<Rightarrow> world \<Rightarrow> world" where
  "st_warning msg w = w\<lparr>screen := screen w @ [Warning msg]\<rparr>"

definition st_progress :: "rat \<Rightarrow> world \<Rightarrow> world" where
  "st_progress v w = w\<lparr>screen := screen w @ [Progress v]\<rparr>"

text \<open>
  \<open>TTS(model_name=...)\<close>: which models can be loaded is a parameter, \<open>models\<close>; every
  call is recorded, whether it raises or not.
\<close>

definition TTS :: "(string \<Rightarrow> error + tts) \<Rightarrow> string \<Rightarrow> world \<Rightarrow> (error + tts) \<times> world" where
  "TTS models model_name w = (models model_name, w\<lparr>loaded := loaded w @ [model_name]\<rparr>)"

text \<open>
  Files: \<open>segment.export(path, format="wav")\<close> writes, \<open>AudioSegment.from_wav(path)\<close>
  reads and raises when there is no such file, as \<open>os.remove(path)\<close> does.
\<close>

definition export :: "waveform \<Rightarrow> string \<Rightarrow> world \<Rightarrow> world" where
  "export audio path w = w\<lparr>files := (files w)(path \<mapsto> audio)\<rparr>"

definition from_wav :: "string \<Rightarrow> world \<Rightarrow> error + waveform" where
  "from_wav path w =
     (case files w path of None \<Rightarrow> Inl (FileNotFoundError path) | Some audio \<Rightarrow> Inr audio)"

definition os_path_exists :: "string \<Rightarrow> world \<Rightarrow> bool" where
  "os_path_exists path w = (files w path \<noteq> None)"

definition os_remove :: "string \<Rightarrow> world \<Rightarrow> (error + unit) \<times> world" where
  "os_remove path w =
     (if files w path = None then (Inl (FileNotFoundError path), w)
      else (Inr (), w\<lparr>files := (files w)(path := None)\<rparr>))"

text \<open>\<open>os.path.join\<close> of two parts, on POSIX.\<close>

definition os_path_join :: "string \<Rightarrow> string \<Rightarrow> string" where
  "os_path_join a b =
     (if b \<noteq> [] \<and> hd b = CHR ''/'' then b
      else if a = [] \<or> last a = CHR ''/'' then a @ b
      else a @ ''/'' @ b)"

definition OUTPUT_DIR :: string where
  "OUTPUT_DIR = ''outputs''"

text \<open>
  The two calls on a loaded model: each either raises, leaving the files as they are, or
  writes its result to \<open>file_path\<close>. Voice conversion reads its source and its target
  from files.
\<close>

definition tts_to_file :: "tts \<Rightarrow> string \<Rightarrow> string \<Rightarrow> string \<Rightarrow> world \<Rightarrow> (error + unit) \<times> world" where
  "tts_to_file m txt speaker file_path w =
     (case synthesize m txt speaker of
        Inl e \<Rightarrow> (Inl e, w)
      | Inr audio \<Rightarrow> (Inr (), export audio file_path w))"

definition voice_conversion_to_file ::
  "tts \<Rightarrow> string \<Rightarrow> string \<Rightarrow> string \<Rightarrow> world \<Rightarrow> (error + unit) \<times> world" where
  "voice_conversion_to_file m source_wav target_wav file_path w =
     (case from_wav source_wav w of
        Inl e \<Rightarrow> (Inl e, w)
      | Inr source \<Rightarrow>
          (case from_wav target_wav w of
             Inl e \<Rightarrow> (Inl e, w)
           | Inr target \<Rightarrow>
               (case convert m source target of
                  Inl e \<Rightarrow> (Inl e, w)
                | Inr audio \<Rightarrow> (Inr (), export audio file_path w))))"

section \<open>generate_book_tts\<close>

text \<open>The name \<open>f"chunk_{i}.wav"\<close> of the temporary file of chunk \<open>i\<close>.\<close>

definition chunk_file :: "nat \<Rightarrow> string" where
  "chunk_file i = ''chunk_'' @ str_nat i @ ''.wav''"

text \<open>
  The first loop, over \<open>enumerate(chunks)\<close>: a chunk that renders adds its file name and
  moves the progress bar; one that raises leaves a warning and is skipped.
\<close>

fun synthesis_loop ::
  "tts \<Rightarrow> string \<Rightarrow> nat \<Rightarrow> (nat \<times> string) list \<Rightarrow> string list \<Rightarrow> world
     \<Rightarrow> string list \<times> world" where
  "synthesis_loop m speaker n_chunks [] temp_files w = (temp_files, w)"
| "synthesis_loop m speaker n_chunks ((i, chunk) # rest) temp_files w =
     (let temp_file = chunk_file i in
      case tts_to_file m chunk speaker temp_file w of
        (Inr u, w1) \<Rightarrow>
          synthesis_loop m speaker n_chunks rest (temp_files @ [temp_file])
            (st_progress (of_nat (i + 1) / of_nat n_chunks) w1)
      | (Inl e, w1) \<Rightarrow>
          synthesis_loop m speaker n_chunks rest temp_files
            (st_warning (''[!] Skipping chunk '' @ str_nat i @ '' due to error: '' @ str_error e) w1))"

text \<open>The second loop: each temporary file is read, appended and removed.\<close>

fun merge_loop :: "string list \<Rightarrow> waveform \<Rightarrow> world \<Rightarrow> (error + waveform) \<times> world" where
  "merge_loop [] final_audio w = (Inr final_audio, w)"
| "merge_loop (temp_file # temp_files) final_audio w =
     (case from_wav temp_file w of
        Inl e \<Rightarrow> (Inl e, w)
      | Inr audio \<Rightarrow>
          (case os_remove temp_file w of
             (Inl e, w1) \<Rightarrow> (Inl e, w1)
           | (Inr u, w1) \<Rightarrow> merge_loop temp_files (final_audio @ audio) w1))"

text \<open>
  generate_book_tts, lines 45 to 79. An exception of \<open>TTS(...)\<close> or of \<open>speakers[0]\<close>
  ends the operation; the value returned is the waveform held by \<open>audio_bytes\<close>. The
  outer \<open>option\<close> is there for the call of split_text only.
\<close>

definition generate_book_tts ::
  "(string \<Rightarrow> error + tts) \<Rightarrow> string \<Rightarrow> string \<Rightarrow> world \<Rightarrow> ((error + waveform) \<times> world) option" where
  "generate_book_tts models txt output_file w =
     (case TTS models ''tts_models/en/vctk/vits'' w of
        (Inl e, w1) \<Rightarrow> Some (Inl e, w1)
      | (Inr m, w1) \<Rightarrow>
          (case speakers m of
             [] \<Rightarrow> Some (Inl IndexError, w1)
           | speaker # others \<Rightarrow>
               (let w2 = st_info (''[+] Using speaker: '' @ speaker) w1 in
                case split_text txt 1500 of
                  None \<Rightarrow> None
                | Some chunks \<Rightarrow>
                    (let w3 = st_info (''[+] Total chunks to process: '' @ str_nat (length chunks)) w2;
                         w4 = st_progress 0 w3;
                         (temp_files, w5) =
                           synthesis_loop m speaker (length chunks) (enumerate 0 chunks) [] w4
                     in case merge_loop temp_files [] w5 of
                          (Inl e, w6) \<Rightarrow> Some (Inl e, w6)
                        | (Inr final_audio, w6) \<Rightarrow>
                            Some (Inr final_audio, export final_audio output_file w6)))))"

section \<open>convert_to_user_voice\<close>

text \<open>
  \<open>range(start, stop, step)\<close>: the values from \<open>start\<close> in steps of \<open>step\<close> while they
  are before \<open>stop\<close>; a step of zero raises ValueError.
\<close>

function range_from :: "int \<Rightarrow> int \<Rightarrow> int \<Rightarrow> int list" where
  "range_from i stop step =
     (if (0 < step \<and> i < stop) \<or> (step < 0 \<and> stop < i)
      then i # range_from (i + step) stop step else [])"
  by pat_completeness auto
termination
  by (relation "measure (\<lambda>(i, stop, step). nat (if 0 < step then stop - i else i - stop))") auto

declare range_from.simps [simp del]

definition py_range :: "int \<Rightarrow> int \<Rightarrow> int \<Rightarrow> error + int list" where
  "py_range start stop step =
     (if step = 0 then Inl ValueError else Inr (range_from start stop step))"

text \<open>
  \<open>audio[start:stop]\<close> on an audio segment: both bounds are in milliseconds and are
  clamped to the duration.
\<close>

definition segment_slice :: "waveform \<Rightarrow> int \<Rightarrow> int \<Rightarrow> waveform" where
  "segment_slice audio start stop =
     (let n = int (length audio)
      in slice_from (slice_to audio (min stop n)) (min start n))"

text \<open>Line 102: \<open>[audio[i:i + chunk_ms] for i in range(0, len(audio), chunk_ms)]\<close>.\<close>

definition split_windows :: "waveform \<Rightarrow> int \<Rightarrow> error + waveform list" where
  "split_windows audio chunk_ms =
     (case py_range 0 (int (length audio)) chunk_ms of
        Inl e \<Rightarrow> Inl e
      | Inr starts \<Rightarrow> Inr (map (\<lambda>i. segment_slice audio i (i + chunk_ms)) starts))"

text \<open>
  Lines 85 to 90: the reference voice is an upload (an object with \<open>read\<close>), which is
  saved under the output directory first, or already a path.
\<close>

datatype voice_ref = Upload waveform | Path string

definition save_reference :: "voice_ref \<Rightarrow> world \<Rightarrow> string \<times> world" where
  "save_reference reference_voice_file w =
     (case reference_voice_file of
        Upload content \<Rightarrow>
          (let ref_path = os_path_join OUTPUT_DIR ''user_voice_sample.wav''
           in (ref_path, export content ref_path w))
      | Path p \<Rightarrow> (p, w))"

text \<open>
  Lines 92 to 98: the first variant is loaded; if that raises, a warning is shown and the
  second variant is loaded outside any \<open>try\<close>.
\<close>

definition load_voice_conversion ::
  "(string \<Rightarrow> error + tts) \<Rightarrow> world \<Rightarrow> (error + tts) \<times> world" where
  "load_voice_conversion models w =
     (case TTS models ''voice_conversion_models/multilingual/vctk/freevc24'' w of
        (Inr vc_tts, w1) \<Rightarrow>
          (Inr vc_tts, st_info ''[+] Using voice conversion model: freevc24'' w1)
      | (Inl e, w1) \<Rightarrow>
          (let w2 = st_warning
                 (''[!] freevc24 not available, falling back to freevc. Error: '' @ str_error e) w1
           in case TTS models ''voice_conversion_models/multilingual/vctk/freevc'' w2 of
                (Inl e2, w3) \<Rightarrow> (Inl e2, w3)
              | (Inr vc_tts, w3) \<Rightarrow>
                  (Inr vc_tts, st_info ''[+] Using voice conversion model: freevc'' w3)))"

text \<open>The temporary files of window \<open>i\<close>, and the guarded removal of lines 123 to 126.\<close>

definition temp_in_path :: "nat \<Rightarrow> string" where
  "temp_in_path i = os_path_join OUTPUT_DIR (''temp_in_'' @ str_nat i @ ''.wav'')"

definition temp_out_path :: "nat \<Rightarrow> string" where
  "temp_out_path i = os_path_join OUTPUT_DIR (''temp_out_'' @ str_nat i @ ''.wav'')"

definition remove_if_exists :: "string \<Rightarrow> world \<Rightarrow> (error + unit) \<times> world" where
  "remove_if_exists path w = (if os_path_exists path w then os_remove path w else (Inr (), w))"

text \<open>
  Lines 106 to 126, over \<open>enumerate(chunks)\<close>: the window is written to \<open>temp_in\<close> and
  converted into \<open>temp_out\<close>, which is read and appended; an exception of the conversion
  or of the reading leaves a warning instead. Both temporary files are then removed if
  they exist.
\<close>

fun conversion_loop ::
  "tts \<Rightarrow> string \<Rightarrow> (nat \<times> waveform) list \<Rightarrow> waveform \<Rightarrow> world
     \<Rightarrow> (error + waveform) \<times> world" where
  "conversion_loop vc_tts ref_path [] converted_audio w = (Inr converted_audio, w)"
| "conversion_loop vc_tts ref_path ((i, chunk) # rest) converted_audio w =
     (let temp_in = temp_in_path i;
          temp_out = temp_out_path i;
          w1 = export chunk temp_in w;
          (converted_audio', w2) =
            (case voice_conversion_to_file vc_tts temp_in ref_path temp_out w1 of
               (Inl e, w') \<Rightarrow>
                 (converted_audio,
                  st_warning (''[!] Skipping chunk '' @ str_nat i @ '' due to error: '' @ str_error e) w')
             | (Inr u, w') \<Rightarrow>
                 (case from_wav temp_out w' of
                    Inl e \<Rightarrow>
                      (converted_audio,
                       st_warning (''[!] Skipping chunk '' @ str_nat i @ '' due to error: '' @ str_error e) w')
                  | Inr audio \<Rightarrow> (converted_audio @ audio, w')))
      in case remove_if_exists temp_in w2 of
           (Inl e, w3) \<Rightarrow> (Inl e, w3)
         | (Inr u, w3) \<Rightarrow>
             (case remove_if_exists temp_out w3 of
                (Inl e, w4) \<Rightarrow> (Inl e, w4)
              | (Inr u', w4) \<Rightarrow> conversion_loop vc_tts ref_path rest converted_audio' w4))"

text \<open>convert_to_user_voice, lines 83 to 130; it returns the output path.\<close>

definition convert_to_user_voice ::
  "(string \<Rightarrow> error + tts) \<Rightarrow> voice_ref \<Rightarrow> string \<Rightarrow> string \<Rightarrow> int \<Rightarrow> world
     \<Rightarrow> (error + string) \<times> world" where
  "convert_to_user_voice models reference_voice_file input_speech output_file chunk_ms w =
     (let (ref_path, w1) = save_reference reference_voice_file w in
      case load_voice_conversion models w1 of
        (Inl e, w2) \<Rightarrow> (Inl e, w2)
      | (Inr vc_tts, w2) \<Rightarrow>
          (case from_wav input_speech w2 of
             Inl e \<Rightarrow> (Inl e, w2)
           | Inr audio \<Rightarrow>
               (case split_windows audio chunk_ms of
                  Inl e \<Rightarrow> (Inl e, w2)
                | Inr chunks \<Rightarrow>
                    (case conversion_loop vc_tts ref_path (enumerate 0 chunks) [] w2 of
                       (Inl e, w3) \<Rightarrow> (Inl e, w3)
                     | (Inr converted_audio, w3) \<Rightarrow>
                         (Inr output_file, export converted_audio output_file w3)))))"

section \<open>Notions used in the statements\<close>

text \<open>
  The pieces that the loop of split_text cuts from a text, before they are stripped and
  the short ones dropped: as long as what remains (the concatenation of the pieces still
  to come) is longer than \<open>N\<close>, the next piece is its \<open>text[:split_index + 1]\<close>; the last
  piece is the remainder, of length at most \<open>N\<close>.
\<close>

fun follows_cuts :: "int \<Rightarrow> string list \<Rightarrow> bool" where
  "follows_cuts N [] = False"
| "follows_cuts N [rest] = (int (length rest) \<le> N)"
| "follows_cuts N (p # q # ps) =
     (let t = concat (p # q # ps)
      in N < int (length t) \<and> p = slice_to t (split_index t N + 1) \<and> follows_cuts N (q # ps))"

text \<open>
  What the first loop of generate_book_tts leaves behind for a list of numbered chunks:
  the temporary file and the waveform of every chunk that rendered, in order; and what
  it shows on the screen for one chunk.
\<close>

definition rendered :: "tts \<Rightarrow> string \<Rightarrow> (nat \<times> string) list \<Rightarrow> (string \<times> waveform) list" where
  "rendered m speaker ics =
     List.map_filter
       (\<lambda>(i, chunk). case synthesize m chunk speaker of
                       Inl e \<Rightarrow> None
                     | Inr audio \<Rightarrow> Some (chunk_file i, audio)) ics"

definition synthesis_event :: "tts \<Rightarrow> string \<Rightarrow> nat \<Rightarrow> nat \<times> string \<Rightarrow> event" where
  "synthesis_event m speaker n_chunks ic =
     (case synthesize m (snd ic) speaker of
        Inl e \<Rightarrow>
          Warning (''[!] Skipping chunk '' @ str_nat (fst ic) @ '' due to error: '' @ str_error e)
      | Inr audio \<Rightarrow> Progress (of_nat (fst ic + 1) / of_nat n_chunks))"

text \<open>
  The conversion of one window against the reference sample, when the model does not
  raise.
\<close>

definition converted :: "tts \<Rightarrow> waveform \<Rightarrow> waveform \<Rightarrow> waveform option" where
  "converted vc target window =
     (case convert vc window target of Inl e \<Rightarrow> None | Inr audio \<Rightarrow> Some audio)"

text \<open>Inputs for the examples: a world without files, and a model that fails on some texts.\<close>

definition no_files :: world where
  "no_files = \<lparr>files = Map.empty, screen = [], loaded = []\<rparr>"

definition demo_tts :: "string list \<Rightarrow> tts" where
  "demo_tts names =
     \<lparr>speakers = names,
      synthesize = (\<lambda>t s. if hd t = CHR ''a'' then Inl (Raised ''boom'') else Inr [1, 2, 3]),
      convert = (\<lambda>source target. if length source < 3 then Inl (Raised ''short'')
                                else Inr (map uminus source))\<rparr>"

section \<open>Properties of the string operations and of the loop\<close>

lemma rfind_lower: "- 1 \<le> rfind s c"
  by (induction s) (auto simp: Let_def)

lemma rfind_upper: "rfind s c < int (length s)"
  by (induction s) (auto simp: Let_def)

lemma rfind_absent: "rfind s c = - 1 \<longleftrightarrow> c \<notin> set s"
proof (induction s)
  case Nil
  show ?case by simp
next
  case (Cons x xs)
  then show ?case using rfind_lower [of xs c] by (auto simp: Let_def)
qed

lemma rfind_hit: "0 \<le> rfind s c \<Longrightarrow> s ! nat (rfind s c) = c"
  by (induction s) (auto simp: Let_def nat_add_distrib split: if_splits)

lemma length_strip_le: "length (strip s) \<le> length s"
proof -
  have "length (strip s) \<le> length (dropWhile is_space s)"
    unfolding strip_def using length_dropWhile_le [of is_space "rev (dropWhile is_space s)"] by simp
  also have "\<dots> \<le> length s" by (rule length_dropWhile_le)
  finally show ?thesis .
qed

lemma split_index_nonneg: "0 \<le> m \<Longrightarrow> 0 \<le> split_index text m"
  using rfind_lower [of "slice_to text m" "CHR ''.''"]
  by (auto simp: split_index_def Let_def)

lemma split_index_le: "0 \<le> m \<Longrightarrow> split_index text m \<le> m"
  using rfind_upper [of "slice_to text m" "CHR ''.''"]
  by (auto simp: split_index_def Let_def slice_to_def)

lemma slice_to_from: "slice_to s k @ slice_from s k = s"
  by (simp add: slice_to_def slice_from_def)

lemma split_loop_pieces:
  "0 \<le> m \<Longrightarrow>
   \<exists>ps rest. split_loop acc t m =
       Some (acc @ filter (\<lambda>c. 20 < length c) (map strip ps), rest)
     \<and> concat ps @ rest = t \<and> int (length rest) \<le> m
     \<and> (\<forall>p \<in> set ps. int (length p) \<le> m + 1)"
proof (induction "length t" arbitrary: acc t rule: less_induct)
  case less
  show ?case
  proof (cases "int (length t) > m")
    case False
    then have "split_loop acc t m = Some (acc, t)"
      by (subst split_loop.simps) simp
    then show ?thesis using False
      by (intro exI [of _ "[]"] exI [of _ t]) simp
  next
    case True
    define i where "i = split_index t m"
    define p where "p = slice_to t (i + 1)"
    define t' where "t' = slice_from t (i + 1)"
    define acc' where "acc' = (if length (strip p) > 20 then acc @ [strip p] else acc)"
    have i0: "0 \<le> i" and im: "i \<le> m"
      using less.prems split_index_nonneg split_index_le by (simp_all add: i_def)
    have shorter: "length t' < length t"
      using True i0 less.prems by (auto simp: t'_def slice_from_def)
    have step: "split_loop acc t m = split_loop acc' t' m"
      using True by (subst split_loop.simps) (simp add: Let_def i_def p_def t'_def acc'_def)
    from less.hyps [OF shorter less.prems, of acc'] obtain ps rest where
      r: "split_loop acc' t' m = Some (acc' @ filter (\<lambda>c. 20 < length c) (map strip ps), rest)"
      and c: "concat ps @ rest = t'" and b: "int (length rest) \<le> m"
      and l: "\<forall>p \<in> set ps. int (length p) \<le> m + 1"
      by blast
    have pl: "int (length p) \<le> m + 1"
      using i0 im by (auto simp: p_def slice_to_def)
    have "split_loop acc t m =
        Some (acc @ filter (\<lambda>c. 20 < length c) (map strip (p # ps)), rest)"
      using step r by (simp add: acc'_def)
    moreover have "concat (p # ps) @ rest = t"
      using c slice_to_from [of t "i + 1"] by (simp add: p_def t'_def)
    moreover have "\<forall>q \<in> set (p # ps). int (length q) \<le> m + 1"
      using l pl by simp
    ultimately show ?thesis using b by blast
  qed
qed

lemma split_loop_negative:
  assumes a: "split_loop acc t m = Some r"
  shows "0 \<le> m"
proof (rule split_loop.raw_induct [where P = "\<lambda>_ _ m _. 0 \<le> m", OF _ a])
  fix sl :: "string list \<Rightarrow> string \<Rightarrow> int \<Rightarrow> (string list \<times> string) option"
    and c t m r
  assume IH: "\<And>c t m r. sl c t m = Some r \<Longrightarrow> 0 \<le> m"
    and eq: "(if int (length t) > m then
        let i = split_index t m;
            chunk = strip (slice_to t (i + 1));
            chunks' = (if length chunk > 20 then c @ [chunk] else c)
        in sl chunks' (slice_from t (i + 1)) m
      else Some (c, t)) = Some r"
  show "0 \<le> m"
  proof (cases "int (length t) > m")
    case True
    with eq IH show ?thesis by (simp add: Let_def split: if_splits)
  next
    case False
    then show ?thesis by simp
  qed
qed


lemma split_loop_returns:
  "0 \<le> m \<Longrightarrow> \<exists>r. split_loop acc t m = Some r"
  using split_loop_pieces [of m acc t] by blast

lemma split_text_diverges: "m < 0 \<Longrightarrow> split_text t m = None"
proof (cases "split_loop [] t m")
  case None
  then show ?thesis by (simp add: split_text_def)
next
  case (Some r)
  assume "m < 0"
  with split_loop_negative [OF Some] show ?thesis by simp
qed

lemma split_text_chunk_bound:
  assumes "0 \<le> m" and "split_text t m = Some cs" and "c \<in> set cs"
  shows "int (length c) \<le> m + 1"
proof -
  from split_loop_pieces [OF assms(1), of "[]" t] obtain ps rest where
    r: "split_loop [] t m = Some (filter (\<lambda>c. 20 < length c) (map strip ps), rest)"
    and b: "int (length rest) \<le> m"
    and l: "\<forall>p \<in> set ps. int (length p) \<le> m + 1"
    by auto
  have "c \<in> strip ` set ps \<or> c = strip rest"
    using assms(2,3) r by (auto simp: split_text_def split: if_splits)
  then show ?thesis
  proof
    assume "c \<in> strip ` set ps"
    then obtain p where "p \<in> set ps" "c = strip p" by blast
    then show ?thesis using l length_strip_le [of p] by fastforce
  next
    assume "c = strip rest"
    then show ?thesis using b length_strip_le [of rest] by simp
  qed
qed

lemma split_text_returns: "0 \<le> m \<Longrightarrow> \<exists>cs. split_text t m = Some cs"
proof -
  assume "0 \<le> m"
  from split_loop_returns [OF this, of "[]" t] obtain r where "split_loop [] t m = Some r"
    by blast
  then show ?thesis by (cases r) (simp add: split_text_def)
qed

lemma rfind_append_hit: "c \<notin> set ys \<Longrightarrow> rfind (xs @ c # ys) c = int (length xs)"
proof (induction xs)
  case Nil
  then have "rfind ys c = - 1" by (simp add: rfind_absent)
  then show ?case by simp
next
  case (Cons x xs)
  then show ?case by (simp add: Let_def)
qed

lemma strip_id: "s \<noteq> [] \<Longrightarrow> \<not> is_space (hd s) \<Longrightarrow> \<not> is_space (last s) \<Longrightarrow> strip s = s"
proof -
  assume s: "s \<noteq> []" and h: "\<not> is_space (hd s)" and l: "\<not> is_space (last s)"
  from h have "dropWhile is_space s = s" by (simp add: dropWhile_eq_self_iff)
  moreover from s l have "dropWhile is_space (rev s) = rev s"
    by (simp add: dropWhile_eq_self_iff hd_rev)
  ultimately show ?thesis by (simp add: strip_def)
qed

lemma two_chunk_text:
  "split_text (replicate 30 (CHR ''a'') @ ''.'' @ replicate 1500 (CHR ''b'')) 1500
     = Some [replicate 30 (CHR ''a'') @ ''.'', replicate 1500 (CHR ''b'')]"
proof -
  let ?A = "replicate 30 (CHR ''a'')" and ?B = "replicate 1500 (CHR ''b'')"
  let ?T = "?A @ CHR ''.'' # ?B"
  have win: "slice_to ?T 1500 = ?A @ CHR ''.'' # replicate 1469 (CHR ''b'')"
    by (simp add: slice_to_def)
  have "rfind (slice_to ?T 1500) (CHR ''.'') = 30"
    unfolding win by (subst rfind_append_hit) simp_all
  then have i: "split_index ?T 1500 = 30"
    by (simp add: split_index_def)
  have c0: "slice_to ?T 31 = ?A @ ''.''"
    by (simp add: slice_to_def)
  have r0: "slice_from ?T 31 = ?B"
    by (simp add: slice_from_def)
  have s0: "strip (?A @ ''.'') = ?A @ ''.''"
    by (rule strip_id) (simp_all add: is_space_def hd_append)
  have s1: "strip ?B = ?B"
    by (rule strip_id) (simp_all add: is_space_def)
  have "split_loop [] ?T 1500 = split_loop [?A @ ''.''] ?B 1500"
    by (subst split_loop.simps) (simp add: i c0 r0 s0 Let_def)
  also have "\<dots> = Some ([?A @ ''.''], ?B)"
    by (subst split_loop.simps) simp
  finally show ?thesis
    by (simp add: split_text_def s1)
qed

lemma long_word_text:
  "split_text (replicate 1502 (CHR ''a'')) 1500 = Some [replicate 1501 (CHR ''a'')]"
proof -
  let ?T = "replicate 1502 (CHR ''a'')"
  have "rfind (slice_to ?T 1500) (CHR ''.'') = - 1"
    by (simp add: rfind_absent slice_to_def)
  then have i: "split_index ?T 1500 = 1500"
    by (simp add: split_index_def)
  have c0: "slice_to ?T 1501 = replicate 1501 (CHR ''a'')"
    by (simp add: slice_to_def)
  have r0: "slice_from ?T 1501 = [CHR ''a'']"
    by (simp add: slice_from_def)
  have s0: "strip (replicate 1501 (CHR ''a'')) = replicate 1501 (CHR ''a'')"
    by (rule strip_id) (simp_all add: is_space_def)
  have s1: "strip [CHR ''a''] = [CHR ''a'']"
    by (rule strip_id) (simp_all add: is_space_def)
  have "split_loop [] ?T 1500 = split_loop [replicate 1501 (CHR ''a'')] [CHR ''a''] 1500"
    by (subst split_loop.simps) (simp add: i c0 r0 s0 Let_def)
  also have "\<dots> = Some ([replicate 1501 (CHR ''a'')], [CHR ''a''])"
    by (subst split_loop.simps) simp
  finally show ?thesis
    by (simp add: split_text_def s1)
qed

lemma follows_cuts_Cons:
  "ps \<noteq> [] \<Longrightarrow>
   follows_cuts N (p # ps) \<longleftrightarrow>
     N < int (length (concat (p # ps)))
     \<and> p = slice_to (concat (p # ps)) (split_index (concat (p # ps)) N + 1)
     \<and> follows_cuts N ps"
  by (cases ps) (simp_all add: Let_def)

lemma follows_cuts_short:
  "follows_cuts N ps \<Longrightarrow> int (length (concat ps)) \<le> N \<Longrightarrow> ps = [concat ps]"
proof (cases ps)
  case Nil
  assume "follows_cuts N ps"
  with Nil show ?thesis by simp
next
  case (Cons p qs)
  assume f: "follows_cuts N ps" and s: "int (length (concat ps)) \<le> N"
  show ?thesis
  proof (cases qs)
    case Nil
    with Cons show ?thesis by simp
  next
    case (Cons q rs)
    with f s \<open>ps = p # qs\<close> show ?thesis by (simp add: Let_def)
  qed
qed

lemma follows_cuts_unique:
  "follows_cuts N ps \<Longrightarrow> follows_cuts N qs \<Longrightarrow> concat ps = concat qs \<Longrightarrow> ps = qs"
proof (induction ps arbitrary: qs)
  case Nil
  then show ?case by simp
next
  case (Cons p ps)
  show ?case
  proof (cases "int (length (concat (p # ps))) \<le> N")
    case True
    from follows_cuts_short [OF Cons.prems(1) True]
    have "p # ps = [concat (p # ps)]" .
    moreover from True Cons.prems(3) have "int (length (concat qs)) \<le> N" by metis
    from follows_cuts_short [OF Cons.prems(2) this] have "qs = [concat qs]" .
    ultimately show ?thesis using Cons.prems(3) by simp
  next
    case False
    then have ps: "ps \<noteq> []" using Cons.prems(1) by (cases ps) auto
    obtain q qs' where qs: "qs = q # qs'"
      using Cons.prems(2) by (cases qs) auto
    have qs': "qs' \<noteq> []"
      using Cons.prems(2,3) False qs by (cases qs') auto
    from Cons.prems(1) ps have p: "p = slice_to (concat (p # ps)) (split_index (concat (p # ps)) N + 1)"
      and fp: "follows_cuts N ps"
      by (simp_all add: follows_cuts_Cons)
    from Cons.prems(2) qs qs' have q: "q = slice_to (concat (q # qs')) (split_index (concat (q # qs')) N + 1)"
      and fq: "follows_cuts N qs'"
      by (simp_all add: follows_cuts_Cons)
    from p q Cons.prems(3) qs have pq: "p = q" by simp
    with Cons.prems(3) qs have "concat ps = concat qs'" by simp
    from Cons.IH [OF fp fq this] pq qs show ?thesis by simp
  qed
qed

lemma split_loop_cuts:
  "0 \<le> m \<Longrightarrow>
   \<exists>ps rest. split_loop acc t m =
       Some (acc @ filter (\<lambda>c. 20 < length c) (map strip ps), rest)
     \<and> concat (ps @ [rest]) = t \<and> follows_cuts m (ps @ [rest])"
proof (induction "length t" arbitrary: acc t rule: less_induct)
  case less
  show ?case
  proof (cases "int (length t) > m")
    case False
    then have "split_loop acc t m = Some (acc, t)"
      by (subst split_loop.simps) simp
    then show ?thesis using False
      by (intro exI [of _ "[]"] exI [of _ t]) simp
  next
    case True
    define i where "i = split_index t m"
    define p where "p = slice_to t (i + 1)"
    define t' where "t' = slice_from t (i + 1)"
    define acc' where "acc' = (if length (strip p) > 20 then acc @ [strip p] else acc)"
    have i0: "0 \<le> i"
      using less.prems split_index_nonneg by (simp add: i_def)
    have shorter: "length t' < length t"
      using True i0 less.prems by (auto simp: t'_def slice_from_def)
    have step: "split_loop acc t m = split_loop acc' t' m"
      using True by (subst split_loop.simps) (simp add: Let_def i_def p_def t'_def acc'_def)
    from less.hyps [OF shorter less.prems, of acc'] obtain ps rest where
      r: "split_loop acc' t' m = Some (acc' @ filter (\<lambda>c. 20 < length c) (map strip ps), rest)"
      and c: "concat (ps @ [rest]) = t'" and f: "follows_cuts m (ps @ [rest])"
      by blast
    have whole: "concat ((p # ps) @ [rest]) = t"
      using c slice_to_from [of t "i + 1"] by (simp add: p_def t'_def)
    have "split_loop acc t m =
        Some (acc @ filter (\<lambda>c. 20 < length c) (map strip (p # ps)), rest)"
      using step r by (simp add: acc'_def)
    moreover have "follows_cuts m ((p # ps) @ [rest])"
    proof -
      have w2: "concat (p # (ps @ [rest])) = t" using whole by simp
      have ne: "ps @ [rest] \<noteq> []" by simp
      have a: "m < int (length (concat (p # (ps @ [rest]))))"
        unfolding w2 using True by simp
      have b: "p = slice_to (concat (p # (ps @ [rest])))
                     (split_index (concat (p # (ps @ [rest]))) m + 1)"
        unfolding w2 by (simp add: p_def i_def)
      from a b f have "follows_cuts m (p # (ps @ [rest]))"
        unfolding follows_cuts_Cons [OF ne] by blast
      then show ?thesis by simp
    qed
    ultimately show ?thesis using whole by blast
  qed
qed

section \<open>Claims about split_text\<close>

text \<open>
  C1, as the code behaves: a chunk can exceed \<open>max_chars\<close>. With no period in the window the
  cut index is \<open>max_chars\<close> itself and the chunk is \<open>text[:max_chars + 1]\<close>: a run of
  1502 letters, split at the default 1500, gives a chunk of 1501 characters, and thirty
  letters split at 21 give a chunk of 22.
\<close>

theorem split_text_chunk_exceeds_max_chars:
  "split_text (replicate 1502 (CHR ''a'')) 1500 = Some [replicate 1501 (CHR ''a'')]
   \<and> length (replicate 1501 (CHR ''a'')) = 1501
   \<and> split_text ''aaaaaaaaaaaaaaaaaaaaaaaaaaaaaa'' 21 = Some [''aaaaaaaaaaaaaaaaaaaaaa'']
   \<and> length ''aaaaaaaaaaaaaaaaaaaaaa'' = 22"
proof -
  have "split_text ''aaaaaaaaaaaaaaaaaaaaaaaaaaaaaa'' 21 = Some [''aaaaaaaaaaaaaaaaaaaaaa'']"
    by code_simp
  then show ?thesis using long_word_text by simp
qed

text \<open>
  C2, as the code behaves: a text without periods is cut every \<open>max_chars + 1\<close> characters,
  not every \<open>max_chars\<close>. Two alphabets split at 21 give chunks of 22 letters each, and the
  first chunk is not the first 21 characters of the text.
\<close>

theorem split_text_no_period_cut_width:
  "split_text ''abcdefghijklmnopqrstuvwxyzABCDEFGHIJKLMNOPQRSTUVWXYZ'' 21
     = Some [''abcdefghijklmnopqrstuv'', ''wxyzABCDEFGHIJKLMNOPQR'']
   \<and> CHR ''.'' \<notin> set ''abcdefghijklmnopqrstuvwxyzABCDEFGHIJKLMNOPQRSTUVWXYZ''
   \<and> take 21 ''abcdefghijklmnopqrstuvwxyzABCDEFGHIJKLMNOPQRSTUVWXYZ''
       \<noteq> ''abcdefghijklmnopqrstuv''"
  by code_simp

text \<open>
  C3: for every text and every \<open>N \<ge> 1\<close>, split_text returns. The pieces that its loop
  cuts, one after the other, together with the remainder, concatenate to the text, and
  the chunks returned are exactly these pieces, each stripped of its surrounding
  whitespace, in the order of the text, without the pieces whose stripped length is at
  most 20. The pieces are determined by the text and \<open>N\<close> (lemma follows_cuts_unique).
\<close>

theorem split_text_reconstructs:
  "1 \<le> N \<Longrightarrow>
   \<exists>pieces. concat pieces = t \<and> follows_cuts N pieces
     \<and> split_text t N = Some (filter (\<lambda>c. 20 < length c) (map strip pieces))"
proof -
  assume "1 \<le> N"
  then have "0 \<le> N" by simp
  from split_loop_cuts [OF this, of "[]" t] obtain ps rest where
    r: "split_loop [] t N = Some (filter (\<lambda>c. 20 < length c) (map strip ps), rest)"
    and c: "concat (ps @ [rest]) = t" and f: "follows_cuts N (ps @ [rest])"
    by auto
  have "split_text t N = Some (filter (\<lambda>c. 20 < length c) (map strip (ps @ [rest])))"
    using r by (simp add: split_text_def)
  with c f show ?thesis by blast
qed

lemma example_cuts:
  "follows_cuts 21 [''One short bit.'', '' Then a longer sentenc'', ''e follows here.'', ''   tail'']"
  by code_simp

theorem split_text_reconstructs_witness:
  "(1::int) \<le> 21
   \<and> concat [''One short bit.'', '' Then a longer sentenc'', ''e follows here.'', ''   tail'']
       = ''One short bit. Then a longer sentence follows here.   tail''
   \<and> follows_cuts 21
        [''One short bit.'', '' Then a longer sentenc'', ''e follows here.'', ''   tail'']
   \<and> split_text ''One short bit. Then a longer sentence follows here.   tail'' 21
       = Some (filter (\<lambda>c. 20 < length c)
           (map strip [''One short bit.'', '' Then a longer sentenc'', ''e follows here.'',
                       ''   tail'']))
   \<and> split_text ''One short bit. Then a longer sentence follows here.   tail'' 21
       = Some [''Then a longer sentenc'']"
proof -
  let ?T = "''One short bit. Then a longer sentence follows here.   tail''"
  let ?P = "[''One short bit.'', '' Then a longer sentenc'', ''e follows here.'', ''   tail'']"
  have c: "concat ?P = ?T" by simp
  from split_text_reconstructs [of 21 ?T] obtain pieces where
    p: "concat pieces = ?T" and f: "follows_cuts 21 pieces"
    and s: "split_text ?T 21 = Some (filter (\<lambda>c. 20 < length c) (map strip pieces))"
    by auto
  from follows_cuts_unique [OF f example_cuts] p c have "pieces = ?P" by simp
  with s have s': "split_text ?T 21 = Some (filter (\<lambda>c. 20 < length c) (map strip ?P))"
    by simp
  have "filter (\<lambda>c. 20 < length c) (map strip ?P) = [''Then a longer sentenc'']"
    by (simp add: strip_def is_space_def)
  with s' c example_cuts show ?thesis by simp
qed

text \<open>
  C8: for every text and every \<open>max_chars \<ge> 0\<close>, split_text returns; and whenever the
  loop body runs, the cut index is not negative and the remaining text gets shorter.
\<close>

theorem split_text_terminates:
  "0 \<le> max_chars \<Longrightarrow>
   (\<exists>chunks. split_text t max_chars = Some chunks)
   \<and> (max_chars < int (length t) \<longrightarrow>
        0 \<le> split_index t max_chars
        \<and> length (slice_from t (split_index t max_chars + 1)) < length t)"
proof -
  assume m: "0 \<le> max_chars"
  from split_loop_returns [OF m, of "[]" t] obtain r where "split_loop [] t max_chars = Some r"
    by blast
  then have "\<exists>chunks. split_text t max_chars = Some chunks"
    by (cases r) (simp add: split_text_def)
  moreover have "0 \<le> split_index t max_chars"
    using m by (rule split_index_nonneg)
  moreover have "max_chars < int (length t) \<longrightarrow>
      length (slice_from t (split_index t max_chars + 1)) < length t"
    using m split_index_nonneg [OF m, of t] by (auto simp: slice_from_def)
  ultimately show ?thesis by blast
qed

theorem split_text_terminates_witness:
  "(0::int) \<le> 0
   \<and> (\<exists>chunks. split_text ''ab'' 0 = Some chunks)
   \<and> 0 < int (length ''ab'')
   \<and> 0 \<le> split_index ''ab'' 0
   \<and> length (slice_from ''ab'' (split_index ''ab'' 0 + 1)) < length ''ab''"
  using split_text_terminates [of 0 "''ab''"] by simp

section \<open>Properties of the watermark substitution\<close>

lemma has_watermark_Nil: "\<not> has_watermark []"
  by (simp add: has_watermark_def)

lemma upt_shift: "map (\<lambda>i. drop i (c # s)) [0..<Suc (length s)] = (c # s) # map (\<lambda>i. drop i s) [0..<length s]"
proof -
  have "[0..<Suc (length s)] = 0 # map Suc [0..<length s]"
    by (simp add: upt_conv_Cons map_Suc_upt del: upt_Suc)
  then show ?thesis by (simp add: comp_def del: upt_Suc)
qed

lemma has_watermark_Cons:
  "has_watermark (c # s) \<longleftrightarrow> matches_watermark (c # s) \<or> has_watermark s"
  unfolding has_watermark_def using upt_shift [of c s] by (simp del: upt_Suc)

lemma ci_prefix_append: "ci_prefix w s \<Longrightarrow> ci_prefix w (s @ r)"
  by (induction w s rule: ci_prefix.induct) (auto split: if_splits)

lemma ci_prefix_length: "ci_prefix w s \<Longrightarrow> length w \<le> length s"
  by (induction w s rule: ci_prefix.induct) (auto split: if_splits)

lemma ci_prefix_take: "ci_prefix w s \<Longrightarrow> ci_prefix w (take (length w) s)"
  by (induction w s rule: ci_prefix.induct) (auto split: if_splits)

lemma matches_watermark_append:
  "matches_watermark s \<Longrightarrow> matches_watermark (s @ r)"
  unfolding matches_watermark_def by (rule ci_prefix_append)

lemma has_watermark_step:
  "\<not> matches_watermark (c # p @ r) \<Longrightarrow> \<not> has_watermark p \<Longrightarrow> \<not> has_watermark (c # p)"
  using matches_watermark_append [of "c # p" r] by (auto simp: has_watermark_Cons)

lemma sub_watermark_pieces:
  "\<exists>segs rest.
     t = concat (map (\<lambda>(p, m). p @ m) segs) @ rest
   \<and> list_all (\<lambda>(p, m). \<not> has_watermark p \<and> matches_watermark m
                           \<and> length m = length watermark) segs
   \<and> \<not> has_watermark rest
   \<and> sub_watermark t = concat (map fst segs) @ rest"
proof (induction t rule: sub_watermark.induct)
  case 1
  show ?case
    by (intro exI [of _ "[]"]) (simp add: has_watermark_Nil)
next
  case (2 c cs)
  show ?case
  proof (cases "matches_watermark (c # cs)")
    case True
    define m where "m = take (length watermark) (c # cs)"
    from 2(1) [OF True] obtain segs rest where
      t: "drop (length watermark) (c # cs) = concat (map (\<lambda>(p, m). p @ m) segs) @ rest"
      and a: "list_all (\<lambda>(p, m). \<not> has_watermark p \<and> matches_watermark m
                           \<and> length m = length watermark) segs"
      and r: "\<not> has_watermark rest"
      and s: "sub_watermark (drop (length watermark) (c # cs)) = concat (map fst segs) @ rest"
      by blast
    have lm: "length m = length watermark"
      using ci_prefix_length [of watermark "c # cs"] True
      unfolding matches_watermark_def m_def by simp
    have mm: "matches_watermark m"
      using True ci_prefix_take unfolding matches_watermark_def m_def by blast
    have "c # cs = concat (map (\<lambda>(p, m). p @ m) (([], m) # segs)) @ rest"
      using t append_take_drop_id [of "length watermark" "c # cs"] by (simp add: m_def)
    moreover have "list_all (\<lambda>(p, m). \<not> has_watermark p \<and> matches_watermark m
                           \<and> length m = length watermark) (([], m) # segs)"
      using a lm mm by (simp add: has_watermark_Nil)
    moreover have "sub_watermark (c # cs) = concat (map fst (([], m) # segs)) @ rest"
      using True s by simp
    ultimately show ?thesis using r by blast
  next
    case False
    from 2(2) [OF False] obtain segs rest where
      t: "cs = concat (map (\<lambda>(p, m). p @ m) segs) @ rest"
      and a: "list_all (\<lambda>(p, m). \<not> has_watermark p \<and> matches_watermark m
                           \<and> length m = length watermark) segs"
      and r: "\<not> has_watermark rest"
      and s: "sub_watermark cs = concat (map fst segs) @ rest"
      by blast
    show ?thesis
    proof (cases segs)
      case Nil
      have "\<not> has_watermark (c # rest)"
        using False r t Nil by (simp add: has_watermark_Cons)
      moreover have "c # cs = concat (map (\<lambda>(p, m). p @ m) []) @ (c # rest)"
        using t Nil by simp
      moreover have "sub_watermark (c # cs) = concat (map fst []) @ (c # rest)"
        using False s Nil by simp
      ultimately show ?thesis
        by (intro exI [of _ "[]"] exI [of _ "c # rest"]) simp
    next
      case (Cons pm segs')
      obtain p m where pm: "pm = (p, m)" by (cases pm)
      have np: "\<not> has_watermark p" using a Cons pm by simp
      have "c # cs = c # p @ (m @ concat (map (\<lambda>(p, m). p @ m) segs') @ rest)"
        using t Cons pm by simp
      with False have "\<not> matches_watermark (c # p @ (m @ concat (map (\<lambda>(p, m). p @ m) segs') @ rest))"
        by simp
      from has_watermark_step [OF this np] have ncp: "\<not> has_watermark (c # p)" .
      have "c # cs = concat (map (\<lambda>(p, m). p @ m) ((c # p, m) # segs')) @ rest"
        using t Cons pm by simp
      moreover have "list_all (\<lambda>(p, m). \<not> has_watermark p \<and> matches_watermark m
                           \<and> length m = length watermark) ((c # p, m) # segs')"
        using a Cons pm ncp by simp
      moreover have "sub_watermark (c # cs) = concat (map fst ((c # p, m) # segs')) @ rest"
        using False s Cons pm by simp
      ultimately show ?thesis using r by blast
    qed
  qed
qed

lemma lower_chain:
  "lower c =
    (if c = CHR ''A'' then CHR ''a'' else if c = CHR ''B'' then CHR ''b''
     else if c = CHR ''C'' then CHR ''c'' else if c = CHR ''D'' then CHR ''d''
     else if c = CHR ''E'' then CHR ''e'' else if c = CHR ''F'' then CHR ''f''
     else if c = CHR ''G'' then CHR ''g'' else if c = CHR ''H'' then CHR ''h''
     else if c = CHR ''I'' then CHR ''i'' else if c = CHR ''J'' then CHR ''j''
     else if c = CHR ''K'' then CHR ''k'' else if c = CHR ''L'' then CHR ''l''
     else if c = CHR ''M'' then CHR ''m'' else if c = CHR ''N'' then CHR ''n''
     else if c = CHR ''O'' then CHR ''o'' else if c = CHR ''P'' then CHR ''p''
     else if c = CHR ''Q'' then CHR ''q'' else if c = CHR ''R'' then CHR ''r''
     else if c = CHR ''S'' then CHR ''s'' else if c = CHR ''T'' then CHR ''t''
     else if c = CHR ''U'' then CHR ''u'' else if c = CHR ''V'' then CHR ''v''
     else if c = CHR ''W'' then CHR ''w'' else if c = CHR ''X'' then CHR ''x''
     else if c = CHR ''Y'' then CHR ''y'' else if c = CHR ''Z'' then CHR ''z'' else c)"
  by (simp add: lower_def)

lemma has_watermark_here: "matches_watermark s \<Longrightarrow> has_watermark s"
proof (cases s)
  case Nil
  assume "matches_watermark s"
  with Nil show ?thesis by (simp add: matches_watermark_def watermark_def)
next
  case (Cons c cs)
  assume "matches_watermark s"
  with Cons show ?thesis by (simp add: has_watermark_Cons)
qed

lemma has_watermark_behind: "matches_watermark s \<Longrightarrow> has_watermark (pre @ s)"
  by (induction pre) (simp_all add: has_watermark_here has_watermark_Cons)

lemmas watermark_eval =
  extract_text_from_pdf_def matches_watermark_def watermark_def lower_chain strip_def
  is_space_def

lemma extract_nested_example: "extract_text_from_pdf [Some ''Scan to DownScan to Downloadload''] = ''Scan to Download''"
  by (simp add: watermark_eval)

lemma extract_page_break_example: "extract_text_from_pdf [Some ''Scan to Download Scan to'', Some ''Download'']
       = ''Scan to Download''"
  by (simp add: watermark_eval)

lemma matches_watermark_example: "matches_watermark ''Scan to Download''"
  by (simp add: watermark_eval)


section \<open>Claims about extract_text_from_pdf\<close>

text \<open>
  C7, as stated, fails. The claim: whenever the concatenated page text contains the
  watermark phrase, the returned string has no occurrence of it, in any case. Two PDFs
  whose page text contains the phrase and whose extracted text still does: in the first,
  deleting the inner occurrence joins \<open>Scan to Down\<close> and \<open>load\<close>; in the second the
  phrase is broken by a page end, which the later whitespace collapsing turns into a
  space.
\<close>

theorem extract_text_watermark_remains:
  "has_watermark (page_texts [Some ''Scan to DownScan to Downloadload''])
   \<and> has_watermark (extract_text_from_pdf [Some ''Scan to DownScan to Downloadload''])
   \<and> has_watermark (page_texts [Some ''Scan to Download Scan to'', Some ''Download''])
   \<and> has_watermark (extract_text_from_pdf
         [Some ''Scan to Download Scan to'', Some ''Download''])"
proof -
  have m: "matches_watermark (''Scan to Download'' @ r)" for r
    using matches_watermark_append [OF matches_watermark_example] .
  have "has_watermark (''Scan to Down'' @ ''Scan to Download'' @ ''load'' @ [CHR 0x0A])"
    by (rule has_watermark_behind [OF m])
  moreover have "has_watermark ([] @ ''Scan to Download'' @ '' Scan to'' @ [CHR 0x0A] @ ''Download'' @ [CHR 0x0A])"
    by (rule has_watermark_behind [OF m])
  moreover have "has_watermark ''Scan to Download''"
    by (rule has_watermark_here [OF matches_watermark_example])
  ultimately show ?thesis by (simp add: extract_nested_example extract_page_break_example)
qed

text \<open>
  C7, amended: for every PDF, the concatenated page text is a sequence of stretches, each
  free of the phrase and followed by an occurrence of the phrase (in any case), and a
  last stretch free of the phrase; the returned string is the concatenation of the
  stretches, with whitespace collapsed and trimmed. So every occurrence met in one pass
  from the left is deleted, and each stretch kept is free of the phrase.
\<close>

theorem extract_text_deletes_scanned_watermarks:
  "\<exists>segs rest.
     page_texts pages = concat (map (\<lambda>(p, m). p @ m) segs) @ rest
   \<and> list_all (\<lambda>(p, m). \<not> has_watermark p \<and> matches_watermark m
                           \<and> length m = length watermark) segs
   \<and> \<not> has_watermark rest
   \<and> extract_text_from_pdf pages = strip (collapse_spaces (concat (map fst segs) @ rest))"
proof -
  from sub_watermark_pieces [of "page_texts pages"] obtain segs rest where
    "page_texts pages = concat (map (\<lambda>(p, m). p @ m) segs) @ rest"
    "list_all (\<lambda>(p, m). \<not> has_watermark p \<and> matches_watermark m
                           \<and> length m = length watermark) segs"
    "\<not> has_watermark rest"
    "sub_watermark (page_texts pages) = concat (map fst segs) @ rest"
    by blast
  then show ?thesis
    unfolding extract_text_from_pdf_def by (intro exI [of _ segs] exI [of _ rest]) simp
qed

section \<open>Properties of generate_book_tts\<close>

lemma str_nat_nonempty: "str_nat n \<noteq> []"
  by (subst str_nat.simps) simp

lemma digit_inj:
  "a < 10 \<Longrightarrow> b < 10 \<Longrightarrow> ''0123456789'' ! a = ''0123456789'' ! b \<Longrightarrow> a = b"
proof -
  have d: "distinct ''0123456789''" by simp
  assume "a < 10" "b < 10" "''0123456789'' ! a = ''0123456789'' ! b"
  then show ?thesis using d by (simp add: nth_eq_iff_index_eq)
qed

lemma str_nat_inj: "str_nat a = str_nat b \<Longrightarrow> a = b"
proof (induction a arbitrary: b rule: str_nat.induct)
  case (1 n)
  show ?case
  proof (cases "n < 10")
    case True
    then have n: "str_nat n = [''0123456789'' ! n]" by (subst str_nat.simps) simp
    show ?thesis
    proof (cases "b < 10")
      case b: True
      then have "str_nat b = [''0123456789'' ! b]" by (subst str_nat.simps) simp
      with n 1(2) True b digit_inj show ?thesis by simp
    next
      case b: False
      then have "str_nat b = str_nat (b div 10) @ [''0123456789'' ! (b mod 10)]"
        by (subst str_nat.simps) simp
      with n 1(2) str_nat_nonempty [of "b div 10"] show ?thesis by simp
    qed
  next
    case False
    then have n: "str_nat n = str_nat (n div 10) @ [''0123456789'' ! (n mod 10)]"
      by (subst str_nat.simps) simp
    show ?thesis
    proof (cases "b < 10")
      case b: True
      then have "str_nat b = [''0123456789'' ! b]" by (subst str_nat.simps) simp
      with n 1(2) str_nat_nonempty [of "n div 10"] show ?thesis by simp
    next
      case b: False
      then have "str_nat b = str_nat (b div 10) @ [''0123456789'' ! (b mod 10)]"
        by (subst str_nat.simps) simp
      with n 1(2) have e: "str_nat (n div 10) = str_nat (b div 10)"
        and d: "''0123456789'' ! (n mod 10) = ''0123456789'' ! (b mod 10)"
        by simp_all
      from 1(1) [OF False e] have "n div 10 = b div 10" .
      moreover from d have "n mod 10 = b mod 10"
        by (intro digit_inj) simp_all
      ultimately show ?thesis by (metis div_mult_mod_eq)
    qed
  qed
qed


lemma rendered_Nil: "rendered m speaker [] = []"
  by (simp add: rendered_def map_filter_simps)

lemma rendered_Cons:
  "rendered m speaker ((i, c) # ics) =
     (case synthesize m c speaker of
        Inl e \<Rightarrow> rendered m speaker ics
      | Inr audio \<Rightarrow> (chunk_file i, audio) # rendered m speaker ics)"
  by (simp add: rendered_def map_filter_simps split: sum.splits)

lemma synthesis_loop_files_names:
  "fst (synthesis_loop m speaker n ics tf w) = tf @ map fst (rendered m speaker ics)"
proof (induction ics arbitrary: tf w)
  case Nil
  show ?case by (simp add: rendered_Nil)
next
  case (Cons ic ics)
  obtain i c where ic: "ic = (i, c)" by (cases ic)
  show ?case
    by (cases "synthesize m c speaker")
       (simp_all add: Let_def ic Cons.IH rendered_Cons tts_to_file_def)
qed

lemma synthesis_loop_files:
  "files (snd (synthesis_loop m speaker n ics tf w)) = files w ++ map_of (rev (rendered m speaker ics))"
proof (induction ics arbitrary: tf w)
  case Nil
  show ?case by (simp add: rendered_Nil)
next
  case (Cons ic ics)
  obtain i c where ic: "ic = (i, c)" by (cases ic)
  show ?case
  proof (cases "synthesize m c speaker")
    case (Inl e)
    then show ?thesis
      by (simp add: Let_def ic Cons.IH rendered_Cons tts_to_file_def st_warning_def)
  next
    case (Inr a)
    define w1 where
      "w1 = st_progress (of_nat (i + 1) / of_nat n) (export a (chunk_file i) w)"
    have f1: "files w1 = (files w)(chunk_file i \<mapsto> a)"
      by (simp add: w1_def st_progress_def export_def)
    have "synthesis_loop m speaker n (ic # ics) tf w
            = synthesis_loop m speaker n ics (tf @ [chunk_file i]) w1"
      by (simp add: ic Inr tts_to_file_def Let_def w1_def)
    then have "files (snd (synthesis_loop m speaker n (ic # ics) tf w))
            = (files w)(chunk_file i \<mapsto> a) ++ map_of (rev (rendered m speaker ics))"
      by (simp only: Cons.IH f1)
    also have "\<dots> = files w ++ (map_of (rev (rendered m speaker ics) @ [(chunk_file i, a)]))"
      by (simp add: fun_eq_iff map_add_def split: option.splits)
    also have "\<dots> = files w ++ map_of (rev (rendered m speaker (ic # ics)))"
      by (simp add: ic rendered_Cons Inr)
    finally show ?thesis .
  qed
qed

lemma synthesis_loop_screen:
  "screen (snd (synthesis_loop m speaker n ics tf w))
     = screen w @ map (synthesis_event m speaker n) ics"
proof (induction ics arbitrary: tf w)
  case Nil
  show ?case by simp
next
  case (Cons ic ics)
  obtain i c where ic: "ic = (i, c)" by (cases ic)
  show ?case
    by (cases "synthesize m c speaker")
       (simp_all add: Let_def ic Cons.IH tts_to_file_def st_warning_def st_progress_def export_def
          synthesis_event_def)
qed

lemma synthesis_loop_loaded:
  "loaded (snd (synthesis_loop m speaker n ics tf w)) = loaded w"
proof (induction ics arbitrary: tf w)
  case Nil
  show ?case by simp
next
  case (Cons ic ics)
  obtain i c where ic: "ic = (i, c)" by (cases ic)
  show ?case
    by (cases "synthesize m c speaker")
       (simp_all add: Let_def ic Cons.IH tts_to_file_def st_warning_def st_progress_def export_def)
qed

lemma merge_loop_result:
  assumes "distinct (map fst ps)" and "\<forall>(p, a) \<in> set ps. files w p = Some a"
  shows "merge_loop (map fst ps) acc w
           = (Inr (acc @ concat (map snd ps)),
              w\<lparr>files := (\<lambda>p. if p \<in> fst ` set ps then None else files w p)\<rparr>)"
  using assms
proof (induction ps arbitrary: acc w)
  case Nil
  show ?case by simp
next
  case (Cons pa ps)
  obtain p a where pa: "pa = (p, a)" by (cases pa)
  define w1 where "w1 = w\<lparr>files := (files w)(p := None)\<rparr>"
  have here: "files w p = Some a" using Cons.prems(2) pa by simp
  have d: "distinct (map fst ps)" and np: "p \<notin> fst ` set ps"
    using Cons.prems(1) pa by simp_all
  have "\<forall>(q, b) \<in> set ps. files w1 q = Some b"
    using Cons.prems(2) np by (auto simp: w1_def rev_image_eqI)
  from Cons.IH [OF d this, of "acc @ a"]
  have "merge_loop (map fst ps) (acc @ a) w1
          = (Inr (acc @ a @ concat (map snd ps)),
             w1\<lparr>files := (\<lambda>q. if q \<in> fst ` set ps then None else files w1 q)\<rparr>)"
    by simp
  moreover have "w1\<lparr>files := (\<lambda>q. if q \<in> fst ` set ps then None else files w1 q)\<rparr>
        = w\<lparr>files := (\<lambda>q. if q \<in> fst ` set (pa # ps) then None else files w q)\<rparr>"
    by (auto simp: w1_def pa fun_eq_iff)
  ultimately show ?case
    using here by (simp add: pa from_wav_def os_remove_def w1_def)
qed


lemma chunk_file_inj: "chunk_file i = chunk_file j \<Longrightarrow> i = j"
  by (simp add: chunk_file_def str_nat_inj)

lemma rendered_names: "fst ` set (rendered m speaker ics) \<subseteq> chunk_file ` fst ` set ics"
proof (induction ics)
  case Nil
  show ?case by (simp add: rendered_Nil)
next
  case (Cons ic ics)
  obtain i c where ic: "ic = (i, c)" by (cases ic)
  from Cons.IH show ?case
    by (cases "synthesize m c speaker") (auto simp: ic rendered_Cons)
qed

lemma rendered_distinct:
  "distinct (map fst ics) \<Longrightarrow> distinct (map fst (rendered m speaker ics))"
proof (induction ics)
  case Nil
  show ?case by (simp add: rendered_Nil)
next
  case (Cons ic ics)
  obtain i c where ic: "ic = (i, c)" by (cases ic)
  have fresh: "chunk_file i \<notin> fst ` set (rendered m speaker ics)"
  proof
    assume "chunk_file i \<in> fst ` set (rendered m speaker ics)"
    with rendered_names [of m speaker ics] have "chunk_file i \<in> chunk_file ` fst ` set ics"
      by (rule subsetD)
    then obtain k where
      "k \<in> fst ` set ics" "chunk_file i = chunk_file k" by blast
    with chunk_file_inj Cons.prems ic show False by auto
  qed
  from Cons show ?case
    by (cases "synthesize m c speaker") (simp_all add: ic rendered_Cons fresh)
qed

lemma rendered_waves:
  "map snd (rendered m speaker (enumerate n cs))
     = List.map_filter (\<lambda>c. case synthesize m c speaker of Inl e \<Rightarrow> None | Inr a \<Rightarrow> Some a) cs"
  by (induction cs arbitrary: n)
     (simp_all add: rendered_Nil rendered_Cons map_filter_simps split: sum.splits)

lemma map_filter_by_index:
  "\<forall>i < length xs. f (xs ! i) = (if P i then Some (g i) else None) \<Longrightarrow>
   List.map_filter f xs = map g (filter P [0..<length xs])"
proof (induction xs rule: rev_induct)
  case Nil
  show ?case by (simp add: map_filter_simps)
next
  case (snoc x xs)
  have "\<forall>i < length xs. f (xs ! i) = (if P i then Some (g i) else None)"
  proof (intro allI impI)
    fix i assume "i < length xs"
    with snoc.prems [rule_format, of i] show "f (xs ! i) = (if P i then Some (g i) else None)"
      by (simp add: nth_append)
  qed
  from snoc.IH [OF this] have ih: "List.map_filter f xs = map g (filter P [0..<length xs])" .
  from snoc.prems [rule_format, of "length xs"]
  have last: "f x = (if P (length xs) then Some (g (length xs)) else None)" by simp
  have "List.map_filter f (xs @ [x]) = List.map_filter f xs @ List.map_filter f [x]"
    by (simp add: map_filter_def)
  with ih last show ?case by (simp add: map_filter_simps)
qed

lemma generate_book_tts_result:
  assumes m: "models ''tts_models/en/vctk/vits'' = Inr m"
    and sp: "speakers m = speaker # others"
    and cs: "split_text t 1500 = Some cs"
  shows "\<exists>w'. generate_book_tts models t out w
            = Some (Inr (concat (map snd (rendered m speaker (enumerate 0 cs)))), w')
     \<and> files w' out = Some (concat (map snd (rendered m speaker (enumerate 0 cs))))
     \<and> (\<forall>p. p \<noteq> out \<longrightarrow> files w' p =
            (if p \<in> fst ` set (rendered m speaker (enumerate 0 cs)) then None else files w p))
     \<and> screen w' = screen w
          @ [Info (''[+] Using speaker: '' @ speaker),
             Info (''[+] Total chunks to process: '' @ str_nat (length cs)),
             Progress 0]
          @ map (synthesis_event m speaker (length cs)) (enumerate 0 cs)
     \<and> loaded w' = loaded w @ [''tts_models/en/vctk/vits'']"
proof -
  define R where "R = rendered m speaker (enumerate 0 cs)"
  define w4 where "w4 =
     st_progress 0 (st_info (''[+] Total chunks to process: '' @ str_nat (length cs))
       (st_info (''[+] Using speaker: '' @ speaker)
         (w\<lparr>loaded := loaded w @ [''tts_models/en/vctk/vits'']\<rparr>)))"
  define r where "r = synthesis_loop m speaker (length cs) (enumerate 0 cs) [] w4"
  define w6 where "w6 = (snd r)\<lparr>files := (\<lambda>p. if p \<in> fst ` set R then None else files (snd r) p)\<rparr>"
  have names: "fst r = map fst R"
    by (simp add: r_def R_def synthesis_loop_files_names)
  have fs: "files (snd r) = files w4 ++ map_of (rev R)"
    by (simp add: r_def R_def synthesis_loop_files)
  have d: "distinct (map fst R)"
    unfolding R_def by (rule rendered_distinct) (simp add: map_fst_enumerate)
  have "\<forall>(p, a) \<in> set R. files (snd r) p = Some a"
    using d by (auto simp: fs map_add_Some_iff distinct_rev rev_map [symmetric])
  from merge_loop_result [OF d this, of "[]"]
  have merge: "merge_loop (fst r) [] (snd r) = (Inr (concat (map snd R)), w6)"
    by (simp add: names w6_def)
  have gen: "generate_book_tts models t out w
      = Some (Inr (concat (map snd R)), export (concat (map snd R)) out w6)"
    using merge
    by (simp add: generate_book_tts_def TTS_def m sp cs Let_def case_prod_beta r_def w4_def)
  have f4: "files w4 = files w"
    by (simp add: w4_def st_progress_def st_info_def)
  have "files (snd r) p = files w p" if "p \<notin> fst ` set R" for p
  proof -
    from that have "map_of (rev R) p = None"
      by (simp add: map_of_eq_None_iff)
    then show ?thesis by (simp add: fs f4 map_add_def)
  qed
  then have other: "\<forall>p. p \<noteq> out \<longrightarrow> files (export (concat (map snd R)) out w6) p =
            (if p \<in> fst ` set R then None else files w p)"
    by (simp add: export_def w6_def)
  have scr: "screen (export (concat (map snd R)) out w6) = screen w
          @ [Info (''[+] Using speaker: '' @ speaker),
             Info (''[+] Total chunks to process: '' @ str_nat (length cs)),
             Progress 0]
          @ map (synthesis_event m speaker (length cs)) (enumerate 0 cs)"
    by (simp add: export_def w6_def r_def synthesis_loop_screen w4_def st_progress_def st_info_def)
  have ld: "loaded (export (concat (map snd R)) out w6) = loaded w @ [''tts_models/en/vctk/vits'']"
    by (simp add: export_def w6_def r_def synthesis_loop_loaded w4_def st_progress_def st_info_def)
  have "files (export (concat (map snd R)) out w6) out = Some (concat (map snd R))"
    by (simp add: export_def)
  with gen other scr ld show ?thesis unfolding R_def by blast
qed

lemma str_nat_digit: "n < 10 \<Longrightarrow> str_nat n = [''0123456789'' ! n]"
  by (subst str_nat.simps) simp

section \<open>Claims about generate_book_tts\<close>

text \<open>
  C4: when the model is loaded and has a speaker, the text splits into \<open>K\<close> chunks, chunk
  \<open>j\<close> raises \<open>e\<close> and every other chunk \<open>i\<close> renders to \<open>audio i\<close>, then
  generate_book_tts returns; the waveform it exports to the output path and returns is
  the concatenation of the \<open>audio i\<close> for \<open>i \<noteq> j\<close> in chunk order, its duration is the
  sum of theirs, and a warning naming \<open>j\<close> and \<open>e\<close> is on the screen.
\<close>

theorem one_failed_chunk_is_skipped:
  assumes "models ''tts_models/en/vctk/vits'' = Inr m"
    and "speakers m = speaker # others"
    and "split_text t 1500 = Some chunks"
    and "j < length chunks"
    and "map (\<lambda>c. synthesize m c speaker) chunks
           = (map (\<lambda>i. Inr (audio i)) [0..<length chunks])[j := Inl e]"
  shows "\<exists>w'. generate_book_tts models t output_file w
            = Some (Inr (concat (map audio (filter (\<lambda>i. i \<noteq> j) [0..<length chunks]))), w')
     \<and> files w' output_file
            = Some (concat (map audio (filter (\<lambda>i. i \<noteq> j) [0..<length chunks])))
     \<and> Warning (''[!] Skipping chunk '' @ str_nat j @ '' due to error: '' @ str_error e)
            \<in> set (screen w')
     \<and> length (concat (map audio (filter (\<lambda>i. i \<noteq> j) [0..<length chunks])))
            = sum_list (map (\<lambda>i. length (audio i)) (filter (\<lambda>i. i \<noteq> j) [0..<length chunks]))"
proof -
  let ?f = "\<lambda>c. case synthesize m c speaker of Inl e \<Rightarrow> None | Inr a \<Rightarrow> Some a"
  let ?A = "concat (map audio (filter (\<lambda>i. i \<noteq> j) [0..<length chunks]))"
  have each: "synthesize m (chunks ! i) speaker = (if i = j then Inl e else Inr (audio i))"
    if "i < length chunks" for i
  proof -
    from that have "synthesize m (chunks ! i) speaker = map (\<lambda>c. synthesize m c speaker) chunks ! i"
      by simp
    also have "\<dots> = (map (\<lambda>i. Inr (audio i)) [0..<length chunks])[j := Inl e] ! i"
      by (simp only: assms(5))
    also have "\<dots> = (if i = j then Inl e else Inr (audio i))"
      using that by (simp add: nth_list_update)
    finally show ?thesis .
  qed
  then have "\<forall>i < length chunks. ?f (chunks ! i) = (if i \<noteq> j then Some (audio i) else None)"
    by simp
  from map_filter_by_index [OF this]
  have waves: "map snd (rendered m speaker (enumerate 0 chunks))
                 = map audio (filter (\<lambda>i. i \<noteq> j) [0..<length chunks])"
    by (simp add: rendered_waves)
  from generate_book_tts_result [of models m speaker others t chunks output_file w, OF assms(1,2,3)] obtain w' where
    g: "generate_book_tts models t output_file w = Some (Inr ?A, w')"
    and f: "files w' output_file = Some ?A"
    and s: "screen w' = screen w
          @ [Info (''[+] Using speaker: '' @ speaker),
             Info (''[+] Total chunks to process: '' @ str_nat (length chunks)),
             Progress 0]
          @ map (synthesis_event m speaker (length chunks)) (enumerate 0 chunks)"
    unfolding waves by blast
  have "(j, chunks ! j) \<in> set (enumerate 0 chunks)"
    using assms(4) by (simp add: in_set_enumerate_eq)
  then have "synthesis_event m speaker (length chunks) (j, chunks ! j) \<in> set (screen w')"
    unfolding s by simp
  moreover have "synthesis_event m speaker (length chunks) (j, chunks ! j)
      = Warning (''[!] Skipping chunk '' @ str_nat j @ '' due to error: '' @ str_error e)"
    using each [OF assms(4)] by (simp add: synthesis_event_def)
  ultimately have "Warning (''[!] Skipping chunk '' @ str_nat j @ '' due to error: '' @ str_error e)
      \<in> set (screen w')" by simp
  moreover have "length ?A
      = sum_list (map (\<lambda>i. length (audio i)) (filter (\<lambda>i. i \<noteq> j) [0..<length chunks]))"
    by (simp add: length_concat comp_def)
  ultimately show ?thesis using g f by blast
qed

theorem one_failed_chunk_is_skipped_witness:
  "split_text (replicate 30 (CHR ''a'') @ ''.'' @ replicate 1500 (CHR ''b'')) 1500
     = Some [replicate 30 (CHR ''a'') @ ''.'', replicate 1500 (CHR ''b'')]
   \<and> synthesize (demo_tts [''p225'']) (replicate 30 (CHR ''a'') @ ''.'') ''p225''
       = Inl (Raised ''boom'')
   \<and> synthesize (demo_tts [''p225'']) (replicate 1500 (CHR ''b'')) ''p225'' = Inr [1, 2, 3]
   \<and> (\<exists>w'. generate_book_tts (\<lambda>name. Inr (demo_tts [''p225'']))
              (replicate 30 (CHR ''a'') @ ''.'' @ replicate 1500 (CHR ''b'')) ''book.wav'' no_files
            = Some (Inr [1, 2, 3], w')
        \<and> files w' ''book.wav'' = Some [1, 2, 3]
        \<and> Warning ''[!] Skipping chunk 0 due to error: boom'' \<in> set (screen w'))"
proof -
  let ?T = "replicate 30 (CHR ''a'') @ ''.'' @ replicate 1500 (CHR ''b'')"
  let ?cs = "[replicate 30 (CHR ''a'') @ ''.'', replicate 1500 (CHR ''b'')]"
  have s0: "synthesize (demo_tts [''p225'']) (replicate 30 (CHR ''a'') @ ''.'') ''p225''
       = Inl (Raised ''boom'')"
    by (simp add: demo_tts_def hd_append)
  have s1: "synthesize (demo_tts [''p225'']) (replicate 1500 (CHR ''b'')) ''p225'' = Inr [1, 2, 3]"
    by (simp add: demo_tts_def)
  have h5: "map (\<lambda>c. synthesize (demo_tts [''p225'']) c ''p225'') ?cs
      = (map (\<lambda>i. Inr ((\<lambda>i. [1, 2, 3]) i)) [0..<length ?cs])[0 := Inl (Raised ''boom'')]"
    using s0 s1 by (simp add: upt_rec [of 0] upt_rec [of 1])
  have "speakers (demo_tts [''p225'']) = ''p225'' # []"
    by (simp add: demo_tts_def)
  from one_failed_chunk_is_skipped [of "\<lambda>name. Inr (demo_tts [''p225''])" "demo_tts [''p225'']"
      "''p225''" "[]" ?T ?cs 0 "\<lambda>i. [1, 2, 3]" "Raised ''boom''" "''book.wav''" no_files,
      OF refl this two_chunk_text _ h5]
  show ?thesis
    using s0 s1 two_chunk_text
    by (simp add: upt_rec [of 0] upt_rec [of 1] str_nat_digit)
qed


lemma rendered_all_fail:
  "\<forall>c \<in> set cs. isl (synthesize m c speaker) \<Longrightarrow> rendered m speaker (enumerate n cs) = []"
proof (induction cs arbitrary: n)
  case Nil
  show ?case by (simp add: rendered_Nil)
next
  case (Cons c cs)
  then show ?case
    by (cases "synthesize m c speaker") (simp_all add: rendered_Cons)
qed

text \<open>
  C9: when the model is loaded and has a speaker and every chunk raises (or there is no
  chunk at all), generate_book_tts does not raise: it writes the empty waveform to the
  output path and returns the empty waveform.
\<close>

theorem all_chunks_fail_empty_export:
  assumes "models ''tts_models/en/vctk/vits'' = Inr m"
    and "speakers m = speaker # others"
    and "split_text t 1500 = Some chunks"
    and "\<forall>c \<in> set chunks. isl (synthesize m c speaker)"
  shows "\<exists>w'. generate_book_tts models t output_file w = Some (Inr [], w')
     \<and> files w' output_file = Some []"
proof -
  have "rendered m speaker (enumerate 0 chunks) = []"
    using assms(4) by (rule rendered_all_fail)
  with generate_book_tts_result [of models m speaker others t chunks output_file w, OF assms(1,2,3)]
  show ?thesis by auto
qed

lemma one_chunk_text:
  "split_text ''all of this text is one chunk'' 1500 = Some [''all of this text is one chunk'']"
  by (subst split_text_def, subst split_loop.simps) (simp add: strip_def is_space_def)

theorem all_chunks_fail_empty_export_witness:
  "split_text ''all of this text is one chunk'' 1500 = Some [''all of this text is one chunk'']
   \<and> isl (synthesize (demo_tts [''p225'']) ''all of this text is one chunk'' ''p225'')
   \<and> (\<exists>w'. generate_book_tts (\<lambda>name. Inr (demo_tts [''p225'']))
              ''all of this text is one chunk'' ''book.wav'' no_files = Some (Inr [], w')
        \<and> files w' ''book.wav'' = Some [])"
proof -
  have f: "isl (synthesize (demo_tts [''p225'']) ''all of this text is one chunk'' ''p225'')"
    by (simp add: demo_tts_def)
  then have all: "\<forall>c \<in> set [''all of this text is one chunk''].
      isl (synthesize (demo_tts [''p225'']) c ''p225'')"
    by simp
  have sp: "speakers (demo_tts [''p225'']) = ''p225'' # []"
    by (simp add: demo_tts_def)
  from all_chunks_fail_empty_export [of "\<lambda>name. Inr (demo_tts [''p225''])" "demo_tts [''p225'']"
      "''p225''" "[]" "''all of this text is one chunk''" "[''all of this text is one chunk'']"
      "''book.wav''" no_files, OF refl sp one_chunk_text all]
  show ?thesis using f one_chunk_text by simp
qed

text \<open>
  C10: the first speaker is indexed before anything else is done with the loaded model.
  With an empty speaker list the operation ends in IndexError, with no file written and
  nothing shown; with a speaker, the operation returns audio, writes it to the output
  path, and the first thing it shows is the speaker \<open>speakers[0]\<close>.
\<close>

theorem first_speaker_is_indexed:
  assumes "models ''tts_models/en/vctk/vits'' = Inr m"
  shows "(speakers m = [] \<longrightarrow>
            generate_book_tts models t output_file w
              = Some (Inl IndexError, w\<lparr>loaded := loaded w @ [''tts_models/en/vctk/vits'']\<rparr>))
       \<and> (speakers m \<noteq> [] \<longrightarrow>
            (\<exists>audio w'. generate_book_tts models t output_file w = Some (Inr audio, w')
               \<and> files w' output_file = Some audio
               \<and> screen w' ! length (screen w) = Info (''[+] Using speaker: '' @ speakers m ! 0)))"
proof (intro conjI impI)
  assume "speakers m = []"
  then show "generate_book_tts models t output_file w
      = Some (Inl IndexError, w\<lparr>loaded := loaded w @ [''tts_models/en/vctk/vits'']\<rparr>)"
    by (simp add: generate_book_tts_def TTS_def assms)
next
  assume "speakers m \<noteq> []"
  then obtain speaker others where sp: "speakers m = speaker # others"
    by (cases "speakers m") auto
  obtain cs where cs: "split_text t 1500 = Some cs"
    using split_text_returns [of 1500 t] by auto
  from generate_book_tts_result [of models m speaker others t cs output_file w, OF assms sp cs]
  obtain w' where
    g: "generate_book_tts models t output_file w
          = Some (Inr (concat (map snd (rendered m speaker (enumerate 0 cs)))), w')"
    and f: "files w' output_file = Some (concat (map snd (rendered m speaker (enumerate 0 cs))))"
    and s: "screen w' = screen w
          @ [Info (''[+] Using speaker: '' @ speaker),
             Info (''[+] Total chunks to process: '' @ str_nat (length cs)),
             Progress 0]
          @ map (synthesis_event m speaker (length cs)) (enumerate 0 cs)"
    by blast
  have "screen w' ! length (screen w) = Info (''[+] Using speaker: '' @ speakers m ! 0)"
    by (simp add: s sp nth_append)
  with g f show "\<exists>audio w'. generate_book_tts models t output_file w = Some (Inr audio, w')
               \<and> files w' output_file = Some audio
               \<and> screen w' ! length (screen w) = Info (''[+] Using speaker: '' @ speakers m ! 0)"
    by blast
qed

theorem first_speaker_is_indexed_witness:
  "speakers (demo_tts []) = []
   \<and> generate_book_tts (\<lambda>name. Inr (demo_tts [])) ''all of this text is one chunk''
         ''book.wav'' no_files
       = Some (Inl IndexError, no_files\<lparr>loaded := loaded no_files @ [''tts_models/en/vctk/vits'']\<rparr>)
   \<and> speakers (demo_tts [''p225'', ''p226'']) \<noteq> []
   \<and> (\<exists>audio w'. generate_book_tts (\<lambda>name. Inr (demo_tts [''p225'', ''p226'']))
                   ''all of this text is one chunk'' ''book.wav'' no_files = Some (Inr audio, w')
        \<and> files w' ''book.wav'' = Some audio
        \<and> screen w' ! length (screen no_files) = Info ''[+] Using speaker: p225'')"
proof -
  have e: "speakers (demo_tts []) = []" and n: "speakers (demo_tts [''p225'', ''p226'']) \<noteq> []"
    by (simp_all add: demo_tts_def)
  from first_speaker_is_indexed [of "\<lambda>name. Inr (demo_tts [])" "demo_tts []"
      "''all of this text is one chunk''" "''book.wav''" no_files, OF refl]
    first_speaker_is_indexed [of "\<lambda>name. Inr (demo_tts [''p225'', ''p226''])"
      "demo_tts [''p225'', ''p226'']" "''all of this text is one chunk''" "''book.wav''" no_files,
      OF refl]
  show ?thesis using e n by (simp add: demo_tts_def)
qed

section \<open>Properties of convert_to_user_voice\<close>

lemma range_from_length:
  "0 < c \<Longrightarrow> int (length (range_from i stop c)) = max 0 (- ((i - stop) div c))"
proof (induction i stop c rule: range_from.induct)
  case (1 i stop c)
  show ?case
  proof (cases "i < stop")
    case True
    have d: "(i + c - stop) div c = (i - stop) div c + 1"
      using 1(2) by (metis add_diff_eq add.commute diff_add_eq div_add_self2 less_irrefl)
    have neg: "(i - stop) div c < 0"
      using True 1(2) by (simp add: pos_imp_zdiv_neg_iff)
    have "range_from i stop c = i # range_from (i + c) stop c"
      using True 1(2) by (subst range_from.simps) simp
    then have "int (length (range_from i stop c)) = 1 + max 0 (- ((i + c - stop) div c))"
      using 1(1) True 1(2) by simp
    also have "\<dots> = max 0 (- ((i - stop) div c))"
      using d neg by simp
    finally show ?thesis .
  next
    case False
    then have "range_from i stop c = []"
      using 1(2) by (subst range_from.simps) simp
    moreover have "0 \<le> (i - stop) div c"
      using False 1(2) by (simp add: pos_imp_zdiv_nonneg_iff)
    ultimately show ?thesis by simp
  qed
qed

lemma range_from_nth:
  "0 < c \<Longrightarrow> k < length (range_from i stop c) \<Longrightarrow> range_from i stop c ! k = i + int k * c"
proof (induction i stop c arbitrary: k rule: range_from.induct)
  case (1 i stop c)
  show ?case
  proof (cases "i < stop")
    case True
    then have r: "range_from i stop c = i # range_from (i + c) stop c"
      using 1(2) by (subst range_from.simps) simp
    show ?thesis
    proof (cases k)
      case 0
      then show ?thesis by (simp add: r)
    next
      case (Suc k')
      with 1(3) r have "k' < length (range_from (i + c) stop c)" by simp
      from 1(1) [OF _ 1(2) this] True 1(2)
      have "range_from (i + c) stop c ! k' = i + c + int k' * c" by simp
      then show ?thesis by (simp add: r Suc algebra_simps)
    qed
  next
    case False
    then have "range_from i stop c = []"
      using 1(2) by (subst range_from.simps) simp
    with 1(3) show ?thesis by simp
  qed
qed

lemma ceiling_windows:
  "0 < c \<Longrightarrow> \<lceil>rat_of_nat n / rat_of_int c\<rceil> = max 0 (- ((0 - int n) div c))"
proof -
  assume c: "0 < c"
  have "\<lceil>rat_of_nat n / rat_of_int c\<rceil> = \<lceil>rat_of_int (int n) / rat_of_int c\<rceil>" by simp
  also have "\<dots> = - ((- int n) div c)" by (rule ceiling_divide_eq_div)
  finally have e: "\<lceil>rat_of_nat n / rat_of_int c\<rceil> = - ((- int n) div c)" .
  have "(- int n) div c \<le> 0"
    using c by (simp add: div_nonpos_pos_le0)
  with e show ?thesis by simp
qed

lemma segment_slice_window:
  "0 \<le> i \<Longrightarrow> 0 < c \<Longrightarrow>
   segment_slice audio i (i + c) = take (nat c) (drop (nat i) audio)"
proof -
  assume i: "0 \<le> i" and c: "0 < c"
  let ?n = "int (length audio)"
  have "segment_slice audio i (i + c)
      = drop (nat (min i ?n)) (take (nat (min (i + c) ?n)) audio)"
    using i c by (simp add: segment_slice_def slice_to_def slice_from_def Let_def min_def)
  also have "\<dots> = take (nat (min (i + c) ?n) - nat (min i ?n)) (drop (nat (min i ?n)) audio)"
    by (simp add: drop_take)
  also have "\<dots> = take (nat c) (drop (nat i) audio)"
  proof (cases "i \<le> ?n")
    case True
    then have m: "nat (min i ?n) = nat i" by simp
    have "take (nat (min (i + c) ?n) - nat i) (drop (nat i) audio) = take (nat c) (drop (nat i) audio)"
    proof (cases "i + c \<le> ?n")
      case True
      then show ?thesis using i c by (simp add: nat_add_distrib)
    next
      case False
      then have "length (drop (nat i) audio) \<le> nat c" using i c by simp
      moreover from False have "length (drop (nat i) audio) \<le> nat (min (i + c) ?n) - nat i"
        using i c by simp
      ultimately show ?thesis by simp
    qed
    with m show ?thesis by simp
  next
    case False
    then show ?thesis using i by simp
  qed
  finally show ?thesis .
qed

lemma split_windows_result:
  assumes c: "0 < chunk_ms"
  shows "\<exists>ws. split_windows audio chunk_ms = Inr ws
     \<and> int (length ws) = \<lceil>rat_of_nat (length audio) / rat_of_int chunk_ms\<rceil>
     \<and> (\<forall>k < length ws. ws ! k = take (nat chunk_ms) (drop (k * nat chunk_ms) audio))"
proof -
  let ?starts = "range_from 0 (int (length audio)) chunk_ms"
  let ?ws = "map (\<lambda>i. segment_slice audio i (i + chunk_ms)) ?starts"
  have w: "split_windows audio chunk_ms = Inr ?ws"
    using c by (simp add: split_windows_def py_range_def)
  have l: "int (length ?ws) = \<lceil>rat_of_nat (length audio) / rat_of_int chunk_ms\<rceil>"
    using range_from_length [OF c, of 0 "int (length audio)"] ceiling_windows [OF c, of "length audio"]
    by simp
  have "?ws ! k = take (nat chunk_ms) (drop (k * nat chunk_ms) audio)" if "k < length ?ws" for k
  proof -
    from that have k: "k < length ?starts" by simp
    from range_from_nth [OF c k] have s: "?starts ! k = int k * chunk_ms" by simp
    have "?ws ! k = segment_slice audio (int k * chunk_ms) (int k * chunk_ms + chunk_ms)"
      using k by (simp add: s)
    also have "\<dots> = take (nat chunk_ms) (drop (nat (int k * chunk_ms)) audio)"
      using c by (intro segment_slice_window) simp_all
    also have "nat (int k * chunk_ms) = k * nat chunk_ms"
      using c by (simp add: nat_mult_distrib)
    finally show ?thesis .
  qed
  with w l show ?thesis by blast
qed


lemma remove_if_exists_result:
  "remove_if_exists p w = (Inr (), w\<lparr>files := (files w)(p := None)\<rparr>)"
proof (cases "files w p")
  case None
  then have "(files w)(p := None) = files w" by (simp add: fun_eq_iff)
  with None show ?thesis by (simp add: remove_if_exists_def os_path_exists_def)
next
  case (Some a)
  then show ?thesis by (simp add: remove_if_exists_def os_path_exists_def os_remove_def)
qed

lemma voice_conversion_to_file_loaded:
  "loaded (snd (voice_conversion_to_file m s t f w)) = loaded w"
  by (simp add: voice_conversion_to_file_def export_def split: sum.splits)

lemma conversion_loop_loaded:
  "loaded (snd (conversion_loop vc ref_path ics acc w)) = loaded w"
proof (induction ics arbitrary: acc w)
  case Nil
  show ?case by simp
next
  case (Cons ic ics)
  obtain i c where ic: "ic = (i, c)" by (cases ic)
  define w1 where "w1 = export c (temp_in_path i) w"
  define v where "v = voice_conversion_to_file vc (temp_in_path i) ref_path (temp_out_path i) w1"
  have lv: "loaded (snd v) = loaded w"
    by (simp add: v_def voice_conversion_to_file_loaded w1_def export_def)
  show ?case
    using lv
    by (cases v; cases "fst v"; cases "from_wav (temp_out_path i) (snd v)")
       (simp_all add: ic Let_def remove_if_exists_result Cons.IH st_warning_def
          flip: w1_def v_def)
qed

lemma conversion_loop_result:
  assumes "files w ref_path = Some sample"
    and "\<forall>i. ref_path \<noteq> temp_in_path i \<and> ref_path \<noteq> temp_out_path i"
  shows "\<exists>w'. conversion_loop vc ref_path ics acc w
            = (Inr (acc @ concat (List.map_filter (converted vc sample) (map snd ics))), w')"
  using assms(1)
proof (induction ics arbitrary: acc w)
  case Nil
  show ?case by (simp add: map_filter_simps)
next
  case (Cons ic ics)
  obtain i c where ic: "ic = (i, c)" by (cases ic)
  have ni: "ref_path \<noteq> temp_in_path i" and no: "ref_path \<noteq> temp_out_path i"
    using assms(2) by simp_all
  define w1 where "w1 = export c (temp_in_path i) w"
  have src: "from_wav (temp_in_path i) w1 = Inr c"
    by (simp add: w1_def from_wav_def export_def)
  have tgt: "from_wav ref_path w1 = Inr sample"
    using Cons.prems ni by (simp add: w1_def from_wav_def export_def)
  show ?case
  proof (cases "convert vc c sample")
    case (Inl e)
    define w4 where "w4 =
      (st_warning (''[!] Skipping chunk '' @ str_nat i @ '' due to error: '' @ str_error e) w1)
        \<lparr>files := ((files w1)(temp_in_path i := None))(temp_out_path i := None)\<rparr>"
    have "files w4 ref_path = Some sample"
      using Cons.prems ni no by (simp add: w4_def w1_def export_def st_warning_def)
    from Cons.IH [OF this, of acc] obtain w' where
      "conversion_loop vc ref_path ics acc w4
         = (Inr (acc @ concat (List.map_filter (converted vc sample) (map snd ics))), w')"
      by blast
    moreover have "conversion_loop vc ref_path (ic # ics) acc w
        = conversion_loop vc ref_path ics acc w4"
      using Inl src tgt
      by (simp add: ic Let_def voice_conversion_to_file_def remove_if_exists_result
            st_warning_def w4_def flip: w1_def)
    moreover have "List.map_filter (converted vc sample) (map snd (ic # ics))
        = List.map_filter (converted vc sample) (map snd ics)"
      using Inl by (simp add: ic map_filter_simps converted_def)
    ultimately show ?thesis by simp
  next
    case (Inr a)
    define w4 where "w4 =
      (export a (temp_out_path i) w1)
        \<lparr>files := ((files (export a (temp_out_path i) w1))(temp_in_path i := None))
                    (temp_out_path i := None)\<rparr>"
    have "files w4 ref_path = Some sample"
      using Cons.prems ni no by (simp add: w4_def w1_def export_def)
    from Cons.IH [OF this, of "acc @ a"] obtain w' where
      "conversion_loop vc ref_path ics (acc @ a) w4
         = (Inr ((acc @ a) @ concat (List.map_filter (converted vc sample) (map snd ics))), w')"
      by blast
    moreover have out: "from_wav (temp_out_path i) (export a (temp_out_path i) w1) = Inr a"
      by (simp add: from_wav_def export_def)
    have "conversion_loop vc ref_path (ic # ics) acc w
        = conversion_loop vc ref_path ics (acc @ a) w4"
      using Inr src tgt out
      by (simp add: ic Let_def voice_conversion_to_file_def remove_if_exists_result
            w4_def flip: w1_def)
    moreover have "List.map_filter (converted vc sample) (map snd (ic # ics))
        = a # List.map_filter (converted vc sample) (map snd ics)"
      using Inr by (simp add: ic map_filter_simps converted_def)
    ultimately show ?thesis by simp
  qed
qed


lemma load_voice_conversion_fst:
  "fst (load_voice_conversion models w)
     = (case models ''voice_conversion_models/multilingual/vctk/freevc24'' of
          Inl e \<Rightarrow> models ''voice_conversion_models/multilingual/vctk/freevc''
        | Inr vc \<Rightarrow> Inr vc)"
  by (simp add: load_voice_conversion_def TTS_def Let_def split: sum.splits)

lemma load_voice_conversion_files:
  "files (snd (load_voice_conversion models w)) = files w"
  by (simp add: load_voice_conversion_def TTS_def Let_def st_info_def st_warning_def
        split: sum.splits)

lemma load_voice_conversion_loaded:
  "loaded (snd (load_voice_conversion models w))
     = (case models ''voice_conversion_models/multilingual/vctk/freevc24'' of
          Inl e \<Rightarrow> loaded w @ [''voice_conversion_models/multilingual/vctk/freevc24'',
                               ''voice_conversion_models/multilingual/vctk/freevc'']
        | Inr vc \<Rightarrow> loaded w @ [''voice_conversion_models/multilingual/vctk/freevc24''])"
  by (simp add: load_voice_conversion_def TTS_def Let_def st_info_def st_warning_def
        split: sum.splits)

lemma save_reference_loaded: "loaded (snd (save_reference r w)) = loaded w"
  by (cases r) (simp_all add: save_reference_def Let_def export_def)

lemma map_snd_enumerate: "map snd (enumerate n xs) = xs"
  by (induction xs arbitrary: n) simp_all

lemma upload_path_not_temporary:
  "os_path_join OUTPUT_DIR ''user_voice_sample.wav'' \<noteq> temp_in_path i
   \<and> os_path_join OUTPUT_DIR ''user_voice_sample.wav'' \<noteq> temp_out_path i"
  by (simp add: temp_in_path_def temp_out_path_def os_path_join_def OUTPUT_DIR_def)

lemma upload_reference_in_place:
  assumes "save_reference (Upload sample) w = (ref_path, w1)"
  shows "files w1 ref_path = Some sample
     \<and> (\<forall>i. ref_path \<noteq> temp_in_path i \<and> ref_path \<noteq> temp_out_path i)"
proof -
  from assms have "ref_path = os_path_join OUTPUT_DIR ''user_voice_sample.wav''"
    and "w1 = export sample ref_path w"
    by (auto simp: save_reference_def Let_def)
  then show ?thesis
    using upload_path_not_temporary by (simp add: export_def)
qed

section \<open>Claims about convert_to_user_voice\<close>

text \<open>
  C5: for a window length \<open>chunk_ms > 0\<close>, a voice-conversion model that loads (the first
  variant, or the second when the first raises), a reference sample that is in place and is
  not one of the temporary files, and source speech \<open>audio\<close> of duration \<open>D\<close>:
  the speech is cut into \<open>\<lceil>D / chunk_ms\<rceil>\<close> windows, window \<open>k\<close> being the \<open>chunk_ms\<close>
  milliseconds from position \<open>k * chunk_ms\<close>, and the waveform written to the output path
  is the concatenation, in window order, of the conversions of the windows that converted.
\<close>

theorem windows_are_converted_in_order:
  assumes "0 < chunk_ms"
    and "(case models ''voice_conversion_models/multilingual/vctk/freevc24'' of
            Inl e \<Rightarrow> models ''voice_conversion_models/multilingual/vctk/freevc''
          | Inr vc \<Rightarrow> Inr vc) = Inr vc_tts"
    and "save_reference reference_voice_file w = (ref_path, w1)"
    and "files w1 ref_path = Some sample"
    and "files w1 input_speech = Some audio"
    and "\<forall>i. ref_path \<noteq> temp_in_path i \<and> ref_path \<noteq> temp_out_path i"
  shows "\<exists>windows w'.
       split_windows audio chunk_ms = Inr windows
     \<and> int (length windows) = \<lceil>rat_of_nat (length audio) / rat_of_int chunk_ms\<rceil>
     \<and> (\<forall>k < length windows.
           windows ! k = take (nat chunk_ms) (drop (k * nat chunk_ms) audio))
     \<and> convert_to_user_voice models reference_voice_file input_speech output_file chunk_ms w
         = (Inr output_file, w')
     \<and> files w' output_file
         = Some (concat (List.map_filter (converted vc_tts sample) windows))"
proof -
  from split_windows_result [OF assms(1), of audio] obtain ws where
    ws: "split_windows audio chunk_ms = Inr ws"
    and n: "int (length ws) = \<lceil>rat_of_nat (length audio) / rat_of_int chunk_ms\<rceil>"
    and k: "\<forall>k < length ws. ws ! k = take (nat chunk_ms) (drop (k * nat chunk_ms) audio)"
    by blast
  obtain r w2 where l: "load_voice_conversion models w1 = (r, w2)"
    by (cases "load_voice_conversion models w1")
  have r: "r = Inr vc_tts"
    using load_voice_conversion_fst [of models w1] l assms(2) by simp
  have f2: "files w2 = files w1"
    using load_voice_conversion_files [of models w1] l by simp
  have inp: "from_wav input_speech w2 = Inr audio"
    using assms(5) by (simp add: from_wav_def f2)
  have "files w2 ref_path = Some sample"
    using assms(4) by (simp add: f2)
  from conversion_loop_result [OF this assms(6), of vc_tts "enumerate 0 ws" "[]"] obtain w3 where
    c: "conversion_loop vc_tts ref_path (enumerate 0 ws) [] w2
          = (Inr (concat (List.map_filter (converted vc_tts sample) ws)), w3)"
    by (auto simp: map_snd_enumerate)
  have "convert_to_user_voice models reference_voice_file input_speech output_file chunk_ms w
      = (Inr output_file,
         export (concat (List.map_filter (converted vc_tts sample) ws)) output_file w3)"
    by (simp add: convert_to_user_voice_def assms(3) l r inp ws c)
  moreover have "files (export (concat (List.map_filter (converted vc_tts sample) ws)) output_file w3)
      output_file = Some (concat (List.map_filter (converted vc_tts sample) ws))"
    by (simp add: export_def)
  ultimately show ?thesis using ws n k by blast
qed

lemma seven_ms_windows:
  "split_windows [1, 2, 3, 4, 5, 6, 7] 3 = Inr [[1, 2, 3], [4, 5, 6], [7]]"
  by (simp add: split_windows_def py_range_def range_from.simps segment_slice_def
        slice_to_def slice_from_def)

theorem windows_are_converted_in_order_witness:
  "(0::int) < 3
   \<and> split_windows [1, 2, 3, 4, 5, 6, 7] 3 = Inr [[1, 2, 3], [4, 5, 6], [7]]
   \<and> \<lceil>rat_of_nat (length [1, 2, 3, 4, 5, 6, 7 :: int]) / rat_of_int 3\<rceil> = 3
   \<and> (\<exists>w'. convert_to_user_voice
              (\<lambda>name. if name = ''voice_conversion_models/multilingual/vctk/freevc''
                       then Inr (demo_tts []) else Inl (Raised ''unavailable''))
              (Upload [9, 9]) ''book.wav'' ''converted.wav'' 3
              (export [1, 2, 3, 4, 5, 6, 7] ''book.wav'' no_files)
            = (Inr ''converted.wav'', w')
        \<and> files w' ''converted.wav'' = Some [- 1, - 2, - 3, - 4, - 5, - 6])"
proof -
  let ?models = "\<lambda>name. if name = ''voice_conversion_models/multilingual/vctk/freevc''
                       then Inr (demo_tts []) else Inl (Raised ''unavailable'')"
  let ?w = "export [1, 2, 3, 4, 5, 6, 7] ''book.wav'' no_files"
  let ?p = "os_path_join OUTPUT_DIR ''user_voice_sample.wav''"
  have h2: "(case ?models ''voice_conversion_models/multilingual/vctk/freevc24'' of
            Inl e \<Rightarrow> ?models ''voice_conversion_models/multilingual/vctk/freevc''
          | Inr vc \<Rightarrow> Inr vc) = Inr (demo_tts [])"
    by simp
  have h3: "save_reference (Upload [9, 9]) ?w = (?p, export [9, 9] ?p ?w)"
    by (simp add: save_reference_def Let_def)
  have h4: "files (export [9, 9] ?p ?w) ?p = Some [9, 9]"
    by (simp add: export_def)
  have h5: "files (export [9, 9] ?p ?w) ''book.wav'' = Some [1, 2, 3, 4, 5, 6, 7]"
    by (simp add: export_def os_path_join_def OUTPUT_DIR_def)
  have h6: "\<forall>i. ?p \<noteq> temp_in_path i \<and> ?p \<noteq> temp_out_path i"
    using upload_path_not_temporary by blast
  have ev: "concat (List.map_filter (converted (demo_tts []) [9, 9]) [[1, 2, 3], [4, 5, 6], [7]])
      = [- 1, - 2, - 3, - 4, - 5, - 6]"
    by (simp add: map_filter_simps converted_def demo_tts_def)
  have c: "\<lceil>rat_of_nat (length [1, 2, 3, 4, 5, 6, 7 :: int]) / rat_of_int 3\<rceil> = 3"
    by (simp add: ceiling_divide_eq_div [of 7 3, simplified])
  from windows_are_converted_in_order [of 3 ?models "demo_tts []" "Upload [9, 9]" ?w ?p
      "export [9, 9] ?p ?w" "[9, 9]" "''book.wav''" "[1, 2, 3, 4, 5, 6, 7]" "''converted.wav''",
      OF _ h2 h3 h4 h5 h6]
  show ?thesis using seven_ms_windows ev c by auto
qed

text \<open>
  C6: when loading the first variant raises, the models asked for by the operation are
  the first variant and then the second, once each, whatever happens afterwards; and
  when the second raises too, that error is the outcome of the operation, which writes
  no file beyond the saved reference sample.
\<close>

theorem fallback_is_tried_once:
  assumes "models ''voice_conversion_models/multilingual/vctk/freevc24'' = Inl e1"
  shows "loaded (snd (convert_to_user_voice models reference_voice_file input_speech
                       output_file chunk_ms w))
           = loaded w @ [''voice_conversion_models/multilingual/vctk/freevc24'',
                         ''voice_conversion_models/multilingual/vctk/freevc'']
     \<and> (\<forall>e2. models ''voice_conversion_models/multilingual/vctk/freevc'' = Inl e2 \<longrightarrow>
           fst (convert_to_user_voice models reference_voice_file input_speech
                  output_file chunk_ms w) = Inl e2
         \<and> files (snd (convert_to_user_voice models reference_voice_file input_speech
                  output_file chunk_ms w)) = files (snd (save_reference reference_voice_file w)))"
proof -
  obtain ref_path w1 where s: "save_reference reference_voice_file w = (ref_path, w1)"
    by (cases "save_reference reference_voice_file w")
  obtain r w2 where l: "load_voice_conversion models w1 = (r, w2)"
    by (cases "load_voice_conversion models w1")
  have l1: "loaded w1 = loaded w"
    using save_reference_loaded [of reference_voice_file w] s by simp
  have l2: "loaded w2 = loaded w @ [''voice_conversion_models/multilingual/vctk/freevc24'',
                         ''voice_conversion_models/multilingual/vctk/freevc'']"
    using load_voice_conversion_loaded [of models w1] l assms l1 by simp
  have r: "r = models ''voice_conversion_models/multilingual/vctk/freevc''"
    using load_voice_conversion_fst [of models w1] l assms by simp
  have f2: "files w2 = files w1"
    using load_voice_conversion_files [of models w1] l by simp
  have "loaded (snd (convert_to_user_voice models reference_voice_file input_speech
                       output_file chunk_ms w)) = loaded w2"
  proof (cases r)
    case (Inl e)
    then show ?thesis by (simp add: convert_to_user_voice_def s l)
  next
    case (Inr vc)
    show ?thesis
    proof (cases "from_wav input_speech w2")
      case i: (Inl e)
      then show ?thesis by (simp add: convert_to_user_voice_def s l Inr)
    next
      case i: (Inr audio)
      show ?thesis
      proof (cases "split_windows audio chunk_ms")
        case ws: (Inl e)
        then show ?thesis by (simp add: convert_to_user_voice_def s l Inr i)
      next
        case ws: (Inr chunks)
        obtain q w3 where c: "conversion_loop vc ref_path (enumerate 0 chunks) [] w2 = (q, w3)"
          by (cases "conversion_loop vc ref_path (enumerate 0 chunks) [] w2")
        have "loaded w3 = loaded w2"
          using conversion_loop_loaded [of vc ref_path "enumerate 0 chunks" "[]" w2] c by simp
        then show ?thesis
          by (cases q) (simp_all add: convert_to_user_voice_def s l Inr i ws c export_def)
      qed
    qed
  qed
  moreover have "fst (convert_to_user_voice models reference_voice_file input_speech
                  output_file chunk_ms w) = Inl e2
         \<and> files (snd (convert_to_user_voice models reference_voice_file input_speech
                  output_file chunk_ms w)) = files (snd (save_reference reference_voice_file w))"
    if "models ''voice_conversion_models/multilingual/vctk/freevc'' = Inl e2" for e2
    using that r f2 by (simp add: convert_to_user_voice_def s l)
  ultimately show ?thesis using l2 by simp
qed

theorem fallback_is_tried_once_witness:
  "loaded (snd (convert_to_user_voice (\<lambda>name. Inl (Raised ''offline'')) (Upload [9, 9])
                  ''book.wav'' ''converted.wav'' 15000 no_files))
     = [''voice_conversion_models/multilingual/vctk/freevc24'',
        ''voice_conversion_models/multilingual/vctk/freevc'']
   \<and> fst (convert_to_user_voice (\<lambda>name. Inl (Raised ''offline'')) (Upload [9, 9])
            ''book.wav'' ''converted.wav'' 15000 no_files) = Inl (Raised ''offline'')
   \<and> files (snd (convert_to_user_voice (\<lambda>name. Inl (Raised ''offline'')) (Upload [9, 9])
            ''book.wav'' ''converted.wav'' 15000 no_files)) ''converted.wav'' = None"
  using fallback_is_tried_once [of "\<lambda>name. Inl (Raised ''offline'')" "Raised ''offline''"
      "Upload [9, 9]" "''book.wav''" "''converted.wav''" 15000 no_files, OF refl]
  by (simp add: no_files_def save_reference_def Let_def export_def os_path_join_def OUTPUT_DIR_def)

end
